theory Spec2Isabelle
  imports Complex_Main "HOL-Library.Multiset" "HOL-Library.Product_Lexorder"
begin

section \<open>Strings as the scripts use them\<close>

text \<open>
  The scripts of \<^verbatim>\<open>scripts/\<close> read \<^verbatim>\<open>README.md\<close>, cut it into lines with
  \<^verbatim>\<open>content.split('\n')\<close>, edit the array of lines and write
  \<^verbatim>\<open>lines.join('\n')\<close> back. A JavaScript string is a sequence of code units; here a
  string is a \<^typ>\<open>char list\<close> and a character stands for the code unit of the same
  number, so the model covers the code units below 256 (ASCII and Latin-1).
\<close>

definition is_space :: "char \<Rightarrow> bool" where
  \<comment> \<open>WhiteSpace and LineTerminator of ECMAScript, below 256: TAB, LF, VT, FF, CR, SP, NBSP.
     \<^verbatim>\<open>String.prototype.trim\<close> and the regular expression class \<^verbatim>\<open>\s\<close> use this set.\<close>
  "is_space c = (of_char c \<in> {9, 10, 11, 12, 13, 32, 160 :: nat})"

definition trim :: "string \<Rightarrow> string" where
  \<comment> \<open>\<^verbatim>\<open>s.trim()\<close>\<close>
  "trim s = rev (dropWhile is_space (rev (dropWhile is_space s)))"

definition lower_char :: "char \<Rightarrow> char" where
  \<comment> \<open>\<^verbatim>\<open>toLowerCase\<close> on one code unit below 256: A-Z, and the Latin-1 capitals
     0xC0-0xDE without the multiplication sign 0xD7.\<close>
  "lower_char c =
     (let n = (of_char c :: nat)
      in if (65 \<le> n \<and> n \<le> 90) \<or> (192 \<le> n \<and> n \<le> 222 \<and> n \<noteq> 215)
         then char_of (n + 32) else c)"

definition toLowerCase :: "string \<Rightarrow> string" where
  "toLowerCase s = map lower_char s"

definition startsWith :: "string \<Rightarrow> string \<Rightarrow> bool" where
  \<comment> \<open>\<^verbatim>\<open>s.startsWith(p)\<close>\<close>
  "startsWith s p = (take (length p) s = p)"

definition endsWith :: "string \<Rightarrow> string \<Rightarrow> bool" where
  \<comment> \<open>\<^verbatim>\<open>s.endsWith(p)\<close>\<close>
  "endsWith s p = (length p \<le> length s \<and> drop (length s - length p) s = p)"

subsection \<open>split and join\<close>

fun split_on :: "char \<Rightarrow> string \<Rightarrow> string list" where
  \<comment> \<open>\<^verbatim>\<open>s.split(c)\<close> for a one-character separator: the empty string gives
     \<^verbatim>\<open>['']\<close>, and n separators give n + 1 parts.\<close>
  "split_on c [] = [[]]"
| "split_on c (x # xs) =
     (let r = split_on c xs in if x = c then [] # r else (x # hd r) # tl r)"

fun join_on :: "char \<Rightarrow> string list \<Rightarrow> string" where
  \<comment> \<open>\<^verbatim>\<open>parts.join(c)\<close>\<close>
  "join_on c [] = []"
| "join_on c [p] = p"
| "join_on c (p # q # ps) = p @ c # join_on c (q # ps)"

abbreviation split_pipe :: "string \<Rightarrow> string list" where
  "split_pipe \<equiv> split_on (CHR ''|'')"

abbreviation join_pipe :: "string list \<Rightarrow> string" where
  "join_pipe \<equiv> join_on (CHR ''|'')"

definition splice_ins :: "int \<Rightarrow> 'a \<Rightarrow> 'a list \<Rightarrow> 'a list" where
  \<comment> \<open>\<^verbatim>\<open>parts.splice(start, 0, x)\<close>: a negative start counts from the end, and the start
     is clamped to the range from 0 to the length, so past the end the element is appended.\<close>
  "splice_ins start x xs =
     (let len = int (length xs);
          k = nat (if start < 0 then max (len + start) 0 else min start len)
      in take k xs @ x # drop k xs)"

fun findIndex :: "('a \<Rightarrow> bool) \<Rightarrow> 'a list \<Rightarrow> int" where
  \<comment> \<open>\<^verbatim>\<open>xs.findIndex(P)\<close>: the first index whose element satisfies P, or -1.\<close>
  "findIndex P [] = - 1"
| "findIndex P (x # xs) =
     (if P x then 0 else (let r = findIndex P xs in if r = - 1 then - 1 else r + 1))"

definition idxOf :: "string list \<Rightarrow> string \<Rightarrow> int" where
  \<comment> \<open>\<^verbatim>\<open>const idxOf = (name) => headerPartsTrim.findIndex((p) => p.toLowerCase() === name.toLowerCase())\<close>\<close>
  "idxOf headerPartsTrim name =
     findIndex (\<lambda>p. toLowerCase p = toLowerCase name) headerPartsTrim"

definition nth_opt :: "'a list \<Rightarrow> int \<Rightarrow> 'a option" where
  \<comment> \<open>\<^verbatim>\<open>xs[k]\<close>: \<open>None\<close> stands for \<^verbatim>\<open>undefined\<close>, read outside the array.\<close>
  "nth_opt xs k = (if 0 \<le> k \<and> k < int (length xs) then Some (xs ! nat k) else None)"

definition cell_or :: "string option \<Rightarrow> string \<Rightarrow> string" where
  \<comment> \<open>\<^verbatim>\<open>cell || d\<close> for a cell that is a string or \<^verbatim>\<open>undefined\<close>: the empty string is
     falsy too.\<close>
  "cell_or cell d = (case cell of None \<Rightarrow> d | Some c \<Rightarrow> if c = [] then d else c)"

definition pad_to :: "nat \<Rightarrow> 'a \<Rightarrow> 'a list \<Rightarrow> 'a list" where
  \<comment> \<open>\<^verbatim>\<open>while (parts.length < n) parts.push(x)\<close>\<close>
  "pad_to n x xs = xs @ replicate (n - length xs) x"

definition isTableLine :: "string \<Rightarrow> bool" where
  \<comment> \<open>\<^verbatim>\<open>line.startsWith('|')\<close>\<close>
  "isTableLine line = startsWith line ''|''"

subsection \<open>SeparatorStyler\<close>

definition separatorCellFrom :: "string option \<Rightarrow> string" where
  \<comment> \<open>\<^verbatim>\<open>fill-github-stars.js\<close> 44-50 and \<^verbatim>\<open>add-github-stars-column.js\<close> 38-44. The
     argument is \<open>None\<close> for \<^verbatim>\<open>undefined\<close>; \<^verbatim>\<open>(cell || '')\<close> maps it, and the empty
     string, to the empty string.\<close>
  "separatorCellFrom cell =
     (let trimmed = trim (case cell of None \<Rightarrow> [] | Some c \<Rightarrow> c);
          leftAlign = startsWith trimmed '':'';
          rightAlign = endsWith trimmed '':'';
          core = ''---''
      in (if leftAlign then '':'' else []) @ core @ (if rightAlign then '':'' else []))"

section \<open>TableScanner\<close>

record table =
  startIndex :: nat
  headerLine :: nat
  rows :: "nat list"

definition push_row :: "table list \<Rightarrow> nat \<Rightarrow> table list" where
  \<comment> \<open>\<^verbatim>\<open>tables[tables.length - 1].rows.push(i)\<close>. The loop reaches it only with
     \<^verbatim>\<open>inTable\<close> set, which happens after a \<^verbatim>\<open>tables.push\<close>; on an empty array the
     source would throw, and the model leaves the array as it is.\<close>
  "push_row tables k =
     (if tables = [] then []
      else butlast tables @ [(last tables)\<lparr>rows := rows (last tables) @ [k]\<rparr>])"

fun findTables_loop :: "string list \<Rightarrow> nat \<Rightarrow> bool \<Rightarrow> table list \<Rightarrow> table list" where
  \<comment> \<open>The \<^verbatim>\<open>for\<close> loop of \<^verbatim>\<open>findTables\<close>, \<^verbatim>\<open>fill-github-stars.js\<close> 137-156, from
     index \<open>k\<close> on; the first argument holds the lines from \<open>k\<close> to the end.\<close>
  "findTables_loop [] k inTable tables = tables"
| "findTables_loop (line # rest) k inTable tables =
     (if \<not> inTable \<and> isTableLine line then
        findTables_loop rest (Suc k) True
          (tables @ [\<lparr>startIndex = k, headerLine = k, rows = [k]\<rparr>])
      else if inTable \<and> isTableLine line then
        findTables_loop rest (Suc k) True (push_row tables k)
      else findTables_loop rest (Suc k) False tables)"

definition findTables :: "string list \<Rightarrow> table list" where
  \<comment> \<open>\<^verbatim>\<open>fill-github-stars.js\<close> 131-158. \<^verbatim>\<open>sort-tables-by-stars.js\<close> 36-61 is the same
     loop: it keeps the open table in \<^verbatim>\<open>current\<close>, an alias of the last element of
     \<^verbatim>\<open>tables\<close>, and its tables have no \<^verbatim>\<open>headerLine\<close>.\<close>
  "findTables lines = findTables_loop lines 0 False []"

section \<open>add-github-stars-column.js\<close>

record scan_state =
  inTable :: bool
  headerLineCount :: nat

record add_state = scan_state +
  modifyThisTable :: bool
  githubColIndex :: int
  starsColIndex :: int
  insertIndex :: int
  tablesModified :: nat
  rowsTouched :: nat
  out :: "string list"

definition add_init :: add_state where
  \<comment> \<open>lines 50-60\<close>
  "add_init = \<lparr>inTable = False, headerLineCount = 0, modifyThisTable = False,
     githubColIndex = - 1, starsColIndex = - 1, insertIndex = - 1,
     tablesModified = 0, rowsTouched = 0, out = []\<rparr>"

definition add_header :: "add_state \<Rightarrow> string \<Rightarrow> add_state" where
  \<comment> \<open>lines 83-120: the first line of a table\<close>
  "add_header st line =
     (let headerPartsRaw = split_pipe line;
          headerPartsTrim = map trim headerPartsRaw;
          g0 = idxOf headerPartsTrim ''Github'';
          g = (if g0 = - 1 then idxOf headerPartsTrim ''GitHub'' else g0);
          s = idxOf headerPartsTrim ''GitHub Stars'';
          st1 = st\<lparr>inTable := True, headerLineCount := 1,
                   githubColIndex := g, starsColIndex := s\<rparr>
      in if s \<noteq> - 1 then st1\<lparr>modifyThisTable := False, out := out st1 @ [line]\<rparr>
         else
           (let ins = (if g \<noteq> - 1 then g + 1 else max 0 (int (length headerPartsRaw) - 1));
                newHeaderParts = splice_ins ins '' GitHub Stars '' headerPartsRaw
            in st1\<lparr>insertIndex := ins,
                    out := out st1 @ [join_pipe newHeaderParts],
                    modifyThisTable := True,
                    tablesModified := tablesModified st1 + 1,
                    rowsTouched := rowsTouched st1 + 1\<rparr>))"

definition add_separator :: "add_state \<Rightarrow> string \<Rightarrow> add_state" where
  \<comment> \<open>lines 125-140: the second line of a table\<close>
  "add_separator st line =
     (if \<not> modifyThisTable st then st\<lparr>out := out st @ [line]\<rparr>
      else
        (let sepParts = split_pipe line;
             refIndex = (if githubColIndex st \<noteq> - 1 then githubColIndex st
                         else max 0 (int (length sepParts) - 2));
             sourceCell = cell_or (nth_opt sepParts refIndex) '' --- '';
             newSepCell = '' '' @ separatorCellFrom (Some sourceCell) @ '' ''
         in st\<lparr>out := out st @ [join_pipe (splice_ins (insertIndex st) newSepCell sepParts)],
                rowsTouched := rowsTouched st + 1\<rparr>))"

definition add_data :: "add_state \<Rightarrow> string \<Rightarrow> add_state" where
  \<comment> \<open>lines 142-151: the later lines of a table\<close>
  "add_data st line =
     (if \<not> modifyThisTable st then st\<lparr>out := out st @ [line]\<rparr>
      else st\<lparr>out := out st @ [join_pipe (splice_ins (insertIndex st) '' '' (split_pipe line))],
              rowsTouched := rowsTouched st + 1\<rparr>)"

definition add_step :: "add_state \<Rightarrow> string \<Rightarrow> add_state" where
  \<comment> \<open>One round of the \<^verbatim>\<open>for\<close> loop, lines 62-152.\<close>
  "add_step st line =
     (let st1 = (if \<not> isTableLine line \<and> inTable st
                 then st\<lparr>inTable := False, headerLineCount := 0, modifyThisTable := False,
                         githubColIndex := - 1, starsColIndex := - 1, insertIndex := - 1\<rparr>
                 else st)
      in if \<not> isTableLine line then st1\<lparr>out := out st1 @ [line]\<rparr>
         else if \<not> inTable st1 then add_header st1 line
         else
           (let st2 = st1\<lparr>headerLineCount := headerLineCount st1 + 1\<rparr>
            in if headerLineCount st2 = 2 then add_separator st2 line
               else add_data st2 line))"

definition add_column_main :: "string list \<Rightarrow> string list" where
  \<comment> \<open>\<^verbatim>\<open>main\<close>, lines 46-161, from the lines read to the lines that are in the file
     afterwards: with no table modified nothing is written.\<close>
  "add_column_main lines =
     (let st = foldl add_step add_init lines
      in if tablesModified st = 0 then lines else out st)"

section \<open>split-link-column.js\<close>

record split_state = scan_state +
  linkColumnIndex :: int
  tableHasLinkColumn :: bool
  changesCount :: nat
  updatedLines :: "string list"

definition split_init :: split_state where
  \<comment> \<open>lines 14-18, 35\<close>
  "split_init = \<lparr>inTable = False, headerLineCount = 0, linkColumnIndex = - 1,
     tableHasLinkColumn = False, changesCount = 0, updatedLines = []\<rparr>"

definition contains :: "string \<Rightarrow> string \<Rightarrow> bool" where
  "contains s p = (\<exists>k \<in> set [0..<Suc (length s)]. startsWith (drop k s) p)"

definition isGithubLink :: "string \<Rightarrow> bool" where
  \<comment> \<open>\<^verbatim>\<open>/(https?:\/\/)?(www\.)?github\.com\//i.test(mdCell)\<close>: both groups are optional and
     the expression is not anchored, so it matches exactly when \<^verbatim>\<open>github.com/\<close> occurs,
     in any letter case.\<close>
  "isGithubLink mdCell = contains (toLowerCase mdCell) ''github.com/''"

definition split_header :: "split_state \<Rightarrow> string \<Rightarrow> split_state" where
  \<comment> \<open>lines 54-78\<close>
  "split_header st line =
     (let headerPartsRaw = split_pipe line;
          headerPartsTrimmed = map trim headerPartsRaw;
          idx = findIndex (\<lambda>p. p = ''Link'') headerPartsTrimmed;
          st1 = st\<lparr>inTable := True, headerLineCount := 1, linkColumnIndex := idx,
                   tableHasLinkColumn := (- 1 < idx)\<rparr>
      in if \<not> tableHasLinkColumn st1 then st1\<lparr>updatedLines := updatedLines st1 @ [line]\<rparr>
         else
           (let newHeaderParts =
                  splice_ins (idx + 1) '' Github '' (headerPartsRaw[nat idx := '' Website ''])
            in st1\<lparr>updatedLines := updatedLines st1 @ [join_pipe newHeaderParts],
                    changesCount := changesCount st1 + 1\<rparr>))"

definition split_separator :: "split_state \<Rightarrow> string \<Rightarrow> split_state" where
  \<comment> \<open>lines 83-99\<close>
  "split_separator st line =
     (if \<not> tableHasLinkColumn st then st\<lparr>updatedLines := updatedLines st @ [line]\<rparr>
      else
        (let idx = linkColumnIndex st;
             sepParts = pad_to (nat (idx + 2)) [] (split_pipe line);
             sourceCell = sepParts ! nat idx;
             newSepCell = '' '' @ separatorCellFrom (Some sourceCell) @ '' ''
         in st\<lparr>updatedLines := updatedLines st @ [join_pipe (splice_ins (idx + 1) newSepCell sepParts)],
                changesCount := changesCount st + 1\<rparr>))"

definition split_data :: "split_state \<Rightarrow> string \<Rightarrow> split_state" where
  \<comment> \<open>lines 101-132\<close>
  "split_data st line =
     (if \<not> tableHasLinkColumn st then st\<lparr>updatedLines := updatedLines st @ [line]\<rparr>
      else
        (let idx = linkColumnIndex st;
             parts = pad_to (nat (idx + 2)) [] (split_pipe line);
             linkCell = parts ! nat idx;
             linkCellTrimmed = trim linkCell;
             githubCell = (if linkCellTrimmed \<noteq> [] \<and> isGithubLink linkCellTrimmed
                           then '' '' @ linkCellTrimmed @ '' '' else '' '');
             websiteCell = (if linkCellTrimmed \<noteq> [] \<and> \<not> isGithubLink linkCellTrimmed
                            then '' '' @ linkCellTrimmed @ '' '' else '' '');
             parts' = splice_ins (idx + 1) githubCell (parts[nat idx := websiteCell])
         in st\<lparr>updatedLines := updatedLines st @ [join_pipe parts'],
                changesCount := (if linkCellTrimmed \<noteq> [] then changesCount st + 1
                                 else changesCount st)\<rparr>))"

definition split_step :: "split_state \<Rightarrow> string \<Rightarrow> split_state" where
  \<comment> \<open>One round of the \<^verbatim>\<open>for\<close> loop, lines 37-133.\<close>
  "split_step st line =
     (let st1 = (if startsWith line ''## '' \<or> (\<not> isTableLine line \<and> inTable st)
                 then st\<lparr>inTable := False, headerLineCount := 0, linkColumnIndex := - 1,
                         tableHasLinkColumn := False\<rparr>
                 else st)
      in if \<not> isTableLine line then st1\<lparr>updatedLines := updatedLines st1 @ [line]\<rparr>
         else if \<not> inTable st1 then split_header st1 line
         else
           (let st2 = st1\<lparr>headerLineCount := headerLineCount st1 + 1\<rparr>
            in if headerLineCount st2 = 2 then split_separator st2 line
               else split_data st2 line))"

definition split_link_main :: "string list \<Rightarrow> string list" where
  \<comment> \<open>The script, from the lines read to the lines that are in the file afterwards: with
     \<^verbatim>\<open>changesCount === 0\<close> it exits before writing (lines 135-138).\<close>
  "split_link_main lines =
     (let st = foldl split_step split_init lines
      in if changesCount st = 0 then lines else updatedLines st)"

section \<open>JavaScript numbers\<close>

text \<open>
  A JavaScript number is an IEEE 754 binary64 value. The model keeps a finite value as the
  rational it denotes (negative zero is the rational 0: the scripts never tell the two
  zeros apart) and has the two infinities and NaN beside it. \<open>to_double\<close> is the rounding
  of a real value to the nearest binary64 value, ties to even, which the language applies
  to the value of a numeric literal and to the exact result of an arithmetic operation.
\<close>

datatype jsnum = Fin rat | PInf | NInf | NaN

definition pow2 :: "int \<Rightarrow> rat" where
  "pow2 e = (if 0 \<le> e then 2 ^ nat e else 1 / 2 ^ nat (- e))"

definition pow10 :: "int \<Rightarrow> rat" where
  "pow10 e = (if 0 \<le> e then 10 ^ nat e else 1 / 10 ^ nat (- e))"

fun bitlen :: "nat \<Rightarrow> nat" where
  \<comment> \<open>the number of binary digits of n\<close>
  "bitlen n = (if n = 0 then 0 else Suc (bitlen (n div 2)))"

declare bitlen.simps [simp del]

definition round_half_even :: "rat \<Rightarrow> int" where
  "round_half_even y =
     (let d = \<lfloor>y\<rfloor>; f = y - of_int d
      in if f < 1 / 2 then d else if 1 / 2 < f then d + 1 else if even d then d else d + 1)"

definition binade :: "rat \<Rightarrow> int" where
  \<comment> \<open>For \<open>0 < a\<close>: the exponent e with \<open>2 ^ e \<le> a < 2 ^ (e + 1)\<close>, and at least -1022, the
     exponent of the subnormal numbers.\<close>
  "binade a = (if 1 \<le> a then int (bitlen (nat \<lfloor>a\<rfloor>)) - 1
               else max (- int (bitlen (nat (\<lceil>1 / a\<rceil> - 1)))) (- 1022))"

definition to_double :: "rat \<Rightarrow> jsnum" where
  \<comment> \<open>53 significant bits; a magnitude of \<open>2 ^ 1024 - 2 ^ 970\<close> (the largest finite value
     and half a unit in its last place) or more rounds to an infinity.\<close>
  "to_double x =
     (let a = \<bar>x\<bar>
      in if a = 0 then Fin 0
         else if 2 ^ 1024 - 2 ^ 970 \<le> a then (if 0 < x then PInf else NInf)
         else let u = pow2 (binade a - 52);
                  v = of_int (round_half_even (a / u)) * u
              in Fin (if 0 < x then v else - v))"

definition js_mul :: "jsnum \<Rightarrow> jsnum \<Rightarrow> jsnum" where
  \<comment> \<open>\<^verbatim>\<open>x * y\<close>\<close>
  "js_mul x y =
     (case (x, y) of
        (Fin a, Fin b) \<Rightarrow> to_double (a * b)
      | (NaN, _) \<Rightarrow> NaN
      | (_, NaN) \<Rightarrow> NaN
      | (Fin a, PInf) \<Rightarrow> (if a = 0 then NaN else if 0 < a then PInf else NInf)
      | (Fin a, NInf) \<Rightarrow> (if a = 0 then NaN else if 0 < a then NInf else PInf)
      | (PInf, Fin b) \<Rightarrow> (if b = 0 then NaN else if 0 < b then PInf else NInf)
      | (NInf, Fin b) \<Rightarrow> (if b = 0 then NaN else if 0 < b then NInf else PInf)
      | (PInf, PInf) \<Rightarrow> PInf
      | (NInf, NInf) \<Rightarrow> PInf
      | (PInf, NInf) \<Rightarrow> NInf
      | (NInf, PInf) \<Rightarrow> NInf)"

definition js_sub :: "jsnum \<Rightarrow> jsnum \<Rightarrow> jsnum" where
  \<comment> \<open>\<^verbatim>\<open>x - y\<close>. The difference of two finite values is kept exact: the comparator uses
     only its sign, and the rounded difference of two binary64 values has the sign of the
     exact one (with gradual underflow it is zero only for equal operands).\<close>
  "js_sub x y =
     (case (x, y) of
        (Fin a, Fin b) \<Rightarrow> Fin (a - b)
      | (NaN, _) \<Rightarrow> NaN
      | (_, NaN) \<Rightarrow> NaN
      | (Fin a, PInf) \<Rightarrow> NInf
      | (Fin a, NInf) \<Rightarrow> PInf
      | (PInf, Fin b) \<Rightarrow> PInf
      | (NInf, Fin b) \<Rightarrow> NInf
      | (PInf, PInf) \<Rightarrow> NaN
      | (NInf, NInf) \<Rightarrow> NaN
      | (PInf, NInf) \<Rightarrow> PInf
      | (NInf, PInf) \<Rightarrow> NInf)"

definition Math_round :: "jsnum \<Rightarrow> jsnum" where
  \<comment> \<open>\<^verbatim>\<open>Math.round(x)\<close>: the integer nearest to x, a half rounding up.\<close>
  "Math_round x = (case x of Fin a \<Rightarrow> Fin (of_int \<lfloor>a + 1 / 2\<rfloor>) | _ \<Rightarrow> x)"

definition isFinite :: "jsnum \<Rightarrow> bool" where
  \<comment> \<open>\<^verbatim>\<open>Number.isFinite(x)\<close>\<close>
  "isFinite x = (case x of Fin a \<Rightarrow> True | _ \<Rightarrow> False)"

definition strict_neq :: "jsnum \<Rightarrow> jsnum \<Rightarrow> bool" where
  \<comment> \<open>\<^verbatim>\<open>x !== y\<close> on numbers: NaN differs from every number, itself included.\<close>
  "strict_neq x y = (x = NaN \<or> y = NaN \<or> x \<noteq> y)"

subsection \<open>Numeric strings\<close>

definition is_digit :: "char \<Rightarrow> bool" where
  "is_digit c = (48 \<le> (of_char c :: nat) \<and> (of_char c :: nat) \<le> 57)"

definition digit_of :: "char \<Rightarrow> nat" where
  \<comment> \<open>the value of a digit of any base up to 16\<close>
  "digit_of c =
     (let n = (of_char c :: nat)
      in if 48 \<le> n \<and> n \<le> 57 then n - 48
         else if 97 \<le> n \<and> n \<le> 102 then n - 87
         else if 65 \<le> n \<and> n \<le> 70 then n - 55
         else 16)"

definition digits_val :: "nat \<Rightarrow> string \<Rightarrow> nat" where
  \<comment> \<open>the value of a string of digits in the given base\<close>
  "digits_val base ds = foldl (\<lambda>acc c. base * acc + digit_of c) 0 ds"

definition parse_exponent :: "string \<Rightarrow> int option" where
  \<comment> \<open>ExponentPart, optional: \<^verbatim>\<open>e\<close> or \<^verbatim>\<open>E\<close>, an optional sign, one digit or more.\<close>
  "parse_exponent s =
     (if s = [] then Some 0
      else if hd s \<noteq> CHR ''e'' \<and> hd s \<noteq> CHR ''E'' then None
      else
        (let r = tl s;
             neg = (r \<noteq> [] \<and> hd r = CHR ''-'');
             ds = (if r \<noteq> [] \<and> (hd r = CHR ''-'' \<or> hd r = CHR ''+'') then tl r else r)
         in if ds = [] \<or> \<not> list_all is_digit ds then None
            else Some (if neg then - int (digits_val 10 ds) else int (digits_val 10 ds))))"

definition parse_unsigned_decimal :: "string \<Rightarrow> rat option" where
  \<comment> \<open>The mathematical value of a StrUnsignedDecimalLiteral other than \<^verbatim>\<open>Infinity\<close>:
     digits, a dot and optional digits; a dot and digits; or digits; then an optional
     exponent. \<open>None\<close> when the string is none of these.\<close>
  "parse_unsigned_decimal s =
     (let ip = takeWhile is_digit s;
          r1 = dropWhile is_digit s;
          dot = (r1 \<noteq> [] \<and> hd r1 = CHR ''.'');
          fp = (if dot then takeWhile is_digit (tl r1) else []);
          r2 = (if dot then dropWhile is_digit (tl r1) else r1)
      in if ip = [] \<and> fp = [] then None
         else (case parse_exponent r2 of
                 None \<Rightarrow> None
               | Some ex \<Rightarrow>
                   Some (of_int (int (digits_val 10 (ip @ fp))) * pow10 (ex - int (length fp)))))"

definition parse_radix :: "nat \<Rightarrow> string \<Rightarrow> jsnum" where
  \<comment> \<open>the digits of a NonDecimalIntegerLiteral after its prefix\<close>
  "parse_radix base ds =
     (if ds \<noteq> [] \<and> list_all (\<lambda>c. digit_of c < base) ds
      then to_double (of_int (int (digits_val base ds))) else NaN)"

definition js_Number :: "string \<Rightarrow> jsnum" where
  \<comment> \<open>\<^verbatim>\<open>Number(s)\<close> for a string (StringToNumber): white space around the literal is
     dropped; the empty string is 0; a binary, octal or hexadecimal literal has no sign;
     anything that is not a literal as a whole is NaN.\<close>
  "js_Number s =
     (let t = trim s;
          p = toLowerCase (take 2 t)
      in if t = [] then Fin 0
         else if p = ''0x'' then parse_radix 16 (drop 2 t)
         else if p = ''0o'' then parse_radix 8 (drop 2 t)
         else if p = ''0b'' then parse_radix 2 (drop 2 t)
         else
           (let neg = (hd t = CHR ''-'');
                u = (if hd t = CHR ''-'' \<or> hd t = CHR ''+'' then tl t else t)
            in if u = ''Infinity'' then (if neg then NInf else PInf)
               else (case parse_unsigned_decimal u of
                       None \<Rightarrow> NaN
                     | Some v \<Rightarrow> to_double (if neg then - v else v))))"

definition parseFloat :: "string \<Rightarrow> jsnum" where
  \<comment> \<open>\<^verbatim>\<open>parseFloat(s)\<close> on the strings \<^verbatim>\<open>parseStars\<close> passes: group 1 of its regular
     expression is a complete unsigned decimal literal, which \<^verbatim>\<open>parseFloat\<close> reads to its
     end. (On other strings \<^verbatim>\<open>parseFloat\<close> reads the longest prefix that is a literal;
     that is not modelled.)\<close>
  "parseFloat s = (case parse_unsigned_decimal s of None \<Rightarrow> NaN | Some v \<Rightarrow> to_double v)"

section \<open>StarValueParser\<close>

definition is_k_number :: "string \<Rightarrow> bool" where
  \<comment> \<open>\<^verbatim>\<open>[0-9]*\.?[0-9]+\<close> matching the whole string\<close>
  "is_k_number g =
     (let ip = takeWhile is_digit g; r = dropWhile is_digit g
      in if r = [] then ip \<noteq> []
         else hd r = CHR ''.'' \<and> tl r \<noteq> [] \<and> list_all is_digit (tl r))"

definition match_k :: "string \<Rightarrow> string option" where
  \<comment> \<open>\<^verbatim>\<open>normalized.match(/^([0-9]*\.?[0-9]+)\s*k$/)\<close>: group 1 of the match, or \<open>None\<close>. The
     string has to end in \<^verbatim>\<open>k\<close>; the white space before it belongs to \<^verbatim>\<open>\s*\<close>; what is left
     has to be the number.\<close>
  "match_k s =
     (if s \<noteq> [] \<and> last s = CHR ''k''
      then (let g = rev (dropWhile is_space (rev (butlast s)))
            in if is_k_number g then Some g else None)
      else None)"

definition parseStars :: "string \<Rightarrow> jsnum option" where
  \<comment> \<open>\<^verbatim>\<open>sort-tables-by-stars.js\<close> 63-79; \<open>None\<close> is \<^verbatim>\<open>null\<close>.\<close>
  "parseStars cellRaw =
     (if cellRaw = [] then None
      else
        (let s = trim cellRaw
         in if s = [] then None
            else
              (let normalized = toLowerCase (filter (\<lambda>c. c \<noteq> CHR '','') s);
                   mK = match_k normalized;
                   val = (case mK of None \<Rightarrow> NaN | Some g \<Rightarrow> parseFloat g)
               in if mK \<noteq> None \<and> val \<noteq> NaN then Some (Math_round (js_mul val (Fin 1000)))
                  else
                    (let n = js_Number normalized
                     in if isFinite n then Some n else None))))"

section \<open>sort-tables-by-stars.js\<close>

record entry =
  e_ri :: nat
  e_i :: nat
  e_stars :: "jsnum option"
  e_line :: string

definition compare_entries :: "entry \<Rightarrow> entry \<Rightarrow> jsnum" where
  \<comment> \<open>The comparator of lines 113-121; the fields \<^verbatim>\<open>ri\<close>, \<^verbatim>\<open>i\<close>, \<^verbatim>\<open>stars\<close> and \<^verbatim>\<open>line\<close> of
     an entry are \<open>e_ri\<close>, \<open>e_i\<close>, \<open>e_stars\<close> and \<open>e_line\<close>.\<close>
  "compare_entries a b =
     (let aNull = (e_stars a = None); bNull = (e_stars b = None)
      in if aNull \<and> bNull then Fin (of_int (int (e_i a) - int (e_i b)))
         else if aNull then Fin 1
         else if bNull then Fin (- 1)
         else if strict_neq (the (e_stars b)) (the (e_stars a))
           then js_sub (the (e_stars b)) (the (e_stars a))
         else Fin (of_int (int (e_i a) - int (e_i b))))"

definition comes_after :: "('a \<Rightarrow> 'a \<Rightarrow> jsnum) \<Rightarrow> 'a \<Rightarrow> 'a \<Rightarrow> bool" where
  \<comment> \<open>\<^verbatim>\<open>Array.prototype.sort\<close> puts a after b when the comparator's result for (a, b) is
     positive; a NaN result counts as 0.\<close>
  "comes_after cmp a b = (case cmp a b of Fin v \<Rightarrow> 0 < v | PInf \<Rightarrow> True | _ \<Rightarrow> False)"

fun insert_sorted :: "('a \<Rightarrow> 'a \<Rightarrow> jsnum) \<Rightarrow> 'a \<Rightarrow> 'a list \<Rightarrow> 'a list" where
  "insert_sorted cmp x [] = [x]"
| "insert_sorted cmp x (y # ys) =
     (if comes_after cmp x y then y # insert_sorted cmp x ys else x # y # ys)"

definition js_sort :: "('a \<Rightarrow> 'a \<Rightarrow> jsnum) \<Rightarrow> 'a list \<Rightarrow> 'a list" where
  \<comment> \<open>\<^verbatim>\<open>xs.slice().sort(cmp)\<close>. The language fixes the result, not the algorithm: the
     sort is stable and orders by the comparator. The model is the stable insertion sort;
     \<open>js_sort_unique\<close> below shows that for the comparator of this script every ordering of
     the entries that respects the comparator is the one the model returns.\<close>
  "js_sort cmp xs = foldr (insert_sorted cmp) xs []"

definition star_entries :: "string list \<Rightarrow> int \<Rightarrow> nat list \<Rightarrow> entry list" where
  \<comment> \<open>lines 105-110: \<^verbatim>\<open>dataRowIndexes.map((ri, i) => ...)\<close>\<close>
  "star_entries lines starsCol dataRowIndexes =
     map (\<lambda>(ri, k).
            (let parts = split_pipe (lines ! ri);
                 starCell = cell_or (nth_opt parts starsCol) [];
                 stars = parseStars starCell
             in \<lparr>e_ri = ri, e_i = k, e_stars = stars, e_line = lines ! ri\<rparr>))
         (zip dataRowIndexes [0..<length dataRowIndexes])"

definition sort_table :: "string list \<times> nat \<times> nat \<Rightarrow> table \<Rightarrow> string list \<times> nat \<times> nat" where
  \<comment> \<open>One round of the loop over the tables, lines 89-139, on \<^verbatim>\<open>lines\<close>,
     \<^verbatim>\<open>tablesProcessed\<close> and \<^verbatim>\<open>tablesChanged\<close>.\<close>
  "sort_table st t =
     (case st of (lines, tablesProcessed, tablesChanged) \<Rightarrow>
      if length (rows t) < 3 then st
      else
        (let header = lines ! (rows t ! 0);
             headerPartsTrim = map trim (split_pipe header);
             starsCol = idxOf headerPartsTrim ''GitHub Stars''
         in if starsCol = - 1 then st
            else
              (let dataRowIndexes = drop 2 (rows t)
               in if dataRowIndexes = [] then st
                  else
                    (let entries = star_entries lines starsCol dataRowIndexes;
                         sorted = js_sort compare_entries entries;
                         changed = (map e_ri sorted \<noteq> map e_ri entries)
                     in if \<not> changed then (lines, tablesProcessed + 1, tablesChanged)
                        else
                          (foldl (\<lambda>ls j. ls[dataRowIndexes ! j := e_line (sorted ! j)])
                             lines [0..<length sorted],
                           tablesProcessed + 1, tablesChanged + 1)))))"

definition sort_main :: "string list \<Rightarrow> string list" where
  \<comment> \<open>\<^verbatim>\<open>main\<close>, lines 81-148, from the lines read to the lines that are in the file
     afterwards: the file is written when a table changed.\<close>
  "sort_main lines =
     (case foldl sort_table (lines, 0, 0) (findTables lines) of
        (lines', tablesProcessed, tablesChanged) \<Rightarrow>
          if 0 < tablesChanged then lines' else lines)"

section \<open>fill-github-stars.js\<close>

subsection \<open>LinkCellParser\<close>

fun find_md_link :: "string \<Rightarrow> string option" where
  \<comment> \<open>\<^verbatim>\<open>cell.match(/\]\(([^)]+)\)/)\<close>: group 1 of the leftmost match. At a \<^verbatim>\<open>](\<close> the
     group is everything up to the next \<^verbatim>\<open>)\<close>; it must not be empty and the \<^verbatim>\<open>)\<close> must
     be there, or the search goes on one character later.\<close>
  "find_md_link [] = None"
| "find_md_link (c # cs) =
     (if c = CHR '']'' \<and> cs \<noteq> [] \<and> hd cs = CHR ''(''
      then (let g = takeWhile (\<lambda>x. x \<noteq> CHR '')'') (tl cs);
                r = dropWhile (\<lambda>x. x \<noteq> CHR '')'') (tl cs)
            in if g \<noteq> [] \<and> r \<noteq> [] then Some g else find_md_link cs)
      else find_md_link cs)"

definition scheme_length :: "string \<Rightarrow> nat" where
  \<comment> \<open>the length of \<^verbatim>\<open>https?:\/\/\<close> (any letter case) at the start of the string, or 0\<close>
  "scheme_length s =
     (if startsWith (toLowerCase s) ''https://'' then 8
      else if startsWith (toLowerCase s) ''http://'' then 7 else 0)"

fun find_plain_url :: "string \<Rightarrow> string option" where
  \<comment> \<open>\<^verbatim>\<open>cell.match(/https?:\/\/[^\s)]+/i)\<close>: the leftmost match\<close>
  "find_plain_url [] = None"
| "find_plain_url (c # cs) =
     (let n = scheme_length (c # cs);
          body = takeWhile (\<lambda>x. \<not> is_space x \<and> x \<noteq> CHR '')'') (drop n (c # cs))
      in if n \<noteq> 0 \<and> body \<noteq> [] then Some (take n (c # cs) @ body)
         else find_plain_url cs)"

definition extractMarkdownUrl :: "string \<Rightarrow> string option" where
  \<comment> \<open>lines 52-58; \<open>None\<close> is \<^verbatim>\<open>null\<close>\<close>
  "extractMarkdownUrl cell =
     (if cell = [] then None
      else (case find_md_link cell of
              Some g \<Rightarrow> Some (trim g)
            | None \<Rightarrow> find_plain_url cell))"

definition is_repo_char :: "char \<Rightarrow> bool" where
  \<comment> \<open>\<^verbatim>\<open>[A-Za-z0-9_.-]\<close>\<close>
  "is_repo_char c =
     (let n = (of_char c :: nat)
      in (65 \<le> n \<and> n \<le> 90) \<or> (97 \<le> n \<and> n \<le> 122) \<or> (48 \<le> n \<and> n \<le> 57)
         \<or> c = CHR ''_'' \<or> c = CHR ''.'' \<or> c = CHR ''-'')"

definition strip_git :: "string \<Rightarrow> string" where
  \<comment> \<open>\<^verbatim>\<open>repo.replace(/\.git$/i, '')\<close>\<close>
  "strip_git name =
     (if endsWith (toLowerCase name) ''.git'' then take (length name - 4) name else name)"

definition parseGithubRepo :: "string option \<Rightarrow> string option" where
  \<comment> \<open>lines 60-69, with the regular expression
     \<^verbatim>\<open>/^https?:\/\/(?:www\.)?github\.com\/([A-Za-z0-9_.-]+)\/([A-Za-z0-9_.-]+)(?:\/|$)/i\<close>
     read from left to right: each group is the longest run of its characters, since the
     character that has to follow is none of them.\<close>
  "parseGithubRepo url =
     (case url of
        None \<Rightarrow> None
      | Some u \<Rightarrow>
          if u = [] then None
          else
            (let n = scheme_length u;
                 r1 = drop n u;
                 r2 = (if startsWith (toLowerCase r1) ''www.'' then drop 4 r1 else r1)
             in if n = 0 \<or> \<not> startsWith (toLowerCase r2) ''github.com/'' then None
                else
                  (let r3 = drop 11 r2;
                       owner = takeWhile is_repo_char r3;
                       r4 = dropWhile is_repo_char r3
                   in if owner = [] \<or> r4 = [] \<or> hd r4 \<noteq> CHR ''/'' then None
                      else
                        (let name = takeWhile is_repo_char (tl r4);
                             r5 = dropWhile is_repo_char (tl r4)
                         in if name = [] \<or> (r5 \<noteq> [] \<and> hd r5 \<noteq> CHR ''/'') then None
                            else Some (owner @ ''/'' @ strip_git name)))))"

subsection \<open>The repository lookup\<close>

datatype api_result =
    ApiStars "nat option"
  | ApiRateLimited
  | ApiFailed

text \<open>
  \<open>ApiStars\<close> is the answer \<^verbatim>\<open>{ ok: true, stars }\<close> of \<^verbatim>\<open>githubApiFetchRepo\<close>:
  \<open>Some n\<close> when \<^verbatim>\<open>stargazers_count\<close> is a number (GitHub sends a count, a natural
  number), \<open>None\<close> when it is absent or not a number. \<open>ApiRateLimited\<close> is the answer with
  \<^verbatim>\<open>error === 'rate-limited'\<close>, \<open>ApiFailed\<close> every other answer that is not ok. The
  network is a parameter \<open>net\<close>: the answer to the request for a path, given how many
  requests the run has sent before.
\<close>

definition normalized_repo :: "string \<Rightarrow> string" where
  \<comment> \<open>lines 124-125: \<^verbatim>\<open>const [owner, name] = repo.split('/')\<close> and the two in lower case.
     A \<^verbatim>\<open>repo\<close> of \<^verbatim>\<open>parseGithubRepo\<close> has both parts; with fewer the source would
     throw.\<close>
  "normalized_repo repo =
     (case split_on (CHR ''/'') repo of
        owner # name # _ \<Rightarrow> toLowerCase owner @ ''/'' @ toLowerCase name
      | _ \<Rightarrow> toLowerCase repo)"

definition githubApiFetchRepo :: "(nat \<Rightarrow> string \<Rightarrow> api_result) \<Rightarrow> nat \<Rightarrow> string \<Rightarrow> api_result" where
  \<comment> \<open>lines 122-129: the request for \<^verbatim>\<open>/repos/<normalized>\<close>\<close>
  "githubApiFetchRepo net sent repo = net sent (''/repos/'' @ normalized_repo repo)"

subsection \<open>The structural pass\<close>

record job =
  lineIndex :: nat
  starsCol :: int
  repo :: string

definition insert_stars_column :: "string list \<Rightarrow> nat list \<Rightarrow> int \<Rightarrow> string list" where
  \<comment> \<open>lines 194-214, for the table with the line indices \<open>rws\<close> and the Github column
     \<open>githubCol\<close>\<close>
  "insert_stars_column lines rws githubCol =
     (let insertIdx = githubCol + 1;
          newHeader = splice_ins insertIdx '' GitHub Stars '' (split_pipe (lines ! (rws ! 0)));
          lines1 = lines[rws ! 0 := join_pipe newHeader];
          sepParts = split_pipe (lines1 ! (rws ! 1));
          sourceCell = cell_or (nth_opt sepParts githubCol) '' --- '';
          newSepCell = '' '' @ separatorCellFrom (Some sourceCell) @ '' '';
          lines2 = lines1[rws ! 1 := join_pipe (splice_ins insertIdx newSepCell sepParts)]
      in foldl (\<lambda>ls r. ls[rws ! r := join_pipe (splice_ins insertIdx '' '' (split_pipe (ls ! (rws ! r))))])
           lines2 [2..<length rws])"

definition row_jobs :: "string list \<Rightarrow> nat list \<Rightarrow> int \<Rightarrow> int \<Rightarrow> job list" where
  \<comment> \<open>lines 222-232: the jobs of the data rows of one table\<close>
  "row_jobs lines rws githubCol sCol =
     concat (map (\<lambda>r.
        (let ri = rws ! r;
             parts = pad_to (nat (max githubCol sCol + 1)) '' '' (split_pipe (lines ! ri));
             githubCell = parts ! nat githubCol;
             url = extractMarkdownUrl githubCell
         in case parseGithubRepo url of
              None \<Rightarrow> []
            | Some rp \<Rightarrow> [\<lparr>lineIndex = ri, starsCol = sCol, repo = rp\<rparr>]))
        [2..<length rws])"

definition fill_table :: "string list \<times> nat \<times> job list \<Rightarrow> table \<Rightarrow> string list \<times> nat \<times> job list" where
  \<comment> \<open>One round of the loop over the tables, lines 176-237, on \<^verbatim>\<open>lines\<close>,
     \<^verbatim>\<open>tablesTouched\<close> and \<^verbatim>\<open>jobs\<close>.\<close>
  "fill_table st t =
     (case st of (lines, tablesTouched, jobs) \<Rightarrow>
      if length (rows t) < 3 then st
      else
        (let headerPartsRaw = split_pipe (lines ! (rows t ! 0));
             headerPartsTrim = map trim headerPartsRaw;
             g0 = idxOf headerPartsTrim ''Github'';
             githubCol = (if g0 = - 1 then idxOf headerPartsTrim ''GitHub'' else g0);
             sCol0 = idxOf headerPartsTrim ''GitHub Stars''
         in if githubCol = - 1 then st
            else if sCol0 = - 1 then
              (let lines' = insert_stars_column lines (rows t) githubCol
               in (lines', tablesTouched + 1,
                   jobs @ row_jobs lines' (rows t) githubCol (githubCol + 1)))
            else (lines, tablesTouched, jobs @ row_jobs lines (rows t) githubCol sCol0)))"

subsection \<open>The resolution pass\<close>

fun string_of_nat :: "nat \<Rightarrow> string" where
  \<comment> \<open>\<^verbatim>\<open>String(stars)\<close> for a count: its decimal digits (JavaScript prints an integer
     below \<open>10 ^ 21\<close> so).\<close>
  "string_of_nat n =
     (if n < 10 then [char_of (48 + n)]
      else string_of_nat (n div 10) @ [char_of (48 + n mod 10)])"

declare string_of_nat.simps [simp del]

record run_state =
  r_lines :: "string list"
  cache :: "string \<rightharpoonup> nat option"
  rowsUpdated :: nat
  apiCalls :: nat
  hitRateLimit :: bool
  requests :: "(string \<times> string) list"

text \<open>
  \<open>r_lines\<close> is \<^verbatim>\<open>lines\<close>. The cache maps a \<^verbatim>\<open>repo\<close> to \<open>Some n\<close> for the number n and
  to \<open>None\<close> for \<^verbatim>\<open>null\<close>. \<open>requests\<close> is not in the source, which only counts the
  requests in \<^verbatim>\<open>apiCalls\<close>: it is the log of the lookups of the run, each with the
  \<^verbatim>\<open>repo\<close> asked for and the normalized owner/name that was requested.
\<close>

definition write_stars :: "run_state \<Rightarrow> job \<Rightarrow> nat \<Rightarrow> run_state" where
  \<comment> \<open>lines 272-276\<close>
  "write_stars st jb stars =
     (let parts = pad_to (nat (starsCol jb + 1)) '' '' (split_pipe (r_lines st ! lineIndex jb));
          parts' = parts[nat (starsCol jb) := '' '' @ string_of_nat stars @ '' '']
      in st\<lparr>r_lines := (r_lines st)[lineIndex jb := join_pipe parts'],
              rowsUpdated := rowsUpdated st + 1\<rparr>)"

fun run_jobs :: "(nat \<Rightarrow> string \<Rightarrow> api_result) \<Rightarrow> job list \<Rightarrow> run_state \<Rightarrow> run_state" where
  \<comment> \<open>The loop over the jobs, lines 249-277. \<^verbatim>\<open>cache.get(repo)\<close> is \<^verbatim>\<open>undefined\<close> for a
     repo not in the cache and \<^verbatim>\<open>null\<close> for one cached as \<^verbatim>\<open>null\<close>; \<^verbatim>\<open>stars == null\<close>
     holds for both.\<close>
  "run_jobs net [] st = st"
| "run_jobs net (jb # rest) st =
     (case cache st (repo jb) of
        Some (Some stars) \<Rightarrow> run_jobs net rest (write_stars st jb stars)
      | _ \<Rightarrow>
         (let res = githubApiFetchRepo net (apiCalls st) (repo jb);
              st1 = st\<lparr>apiCalls := apiCalls st + 1,
                       requests := requests st @ [(repo jb, normalized_repo (repo jb))]\<rparr>
          in case res of
               ApiRateLimited \<Rightarrow> st1\<lparr>hitRateLimit := True\<rparr>
             | ApiFailed \<Rightarrow> run_jobs net rest st1
             | ApiStars stars \<Rightarrow>
                 (let st2 = st1\<lparr>cache := (cache st1)(repo jb \<mapsto> stars)\<rparr>
                  in case stars of
                       None \<Rightarrow> run_jobs net rest st2
                     | Some n \<Rightarrow> run_jobs net rest (write_stars st2 jb n))))"

definition fill_structure :: "string list \<Rightarrow> string list \<times> nat \<times> job list" where
  \<comment> \<open>lines 165-237: the state after the loop over the tables\<close>
  "fill_structure lines = foldl fill_table (lines, 0, []) (findTables lines)"

definition fill_run :: "(nat \<Rightarrow> string \<Rightarrow> api_result) \<Rightarrow> string list \<Rightarrow> run_state" where
  \<comment> \<open>lines 239-277: the state after the loop over the jobs\<close>
  "fill_run net lines =
     (case fill_structure lines of (lines1, tablesTouched, jobs) \<Rightarrow>
        run_jobs net jobs
          \<lparr>r_lines = lines1, cache = Map.empty, rowsUpdated = 0, apiCalls = 0,
           hitRateLimit = False, requests = []\<rparr>)"

definition fill_main :: "(nat \<Rightarrow> string \<Rightarrow> api_result) \<Rightarrow> string list \<Rightarrow> string list" where
  \<comment> \<open>\<^verbatim>\<open>main\<close>, lines 160-287, from the lines read to the lines that are in the file
     afterwards: without jobs the file is written when a table was touched (239-243),
     otherwise when a row was updated or a table was touched (279-281).\<close>
  "fill_main net lines =
     (case fill_structure lines of (lines1, tablesTouched, jobs) \<Rightarrow>
        if jobs = [] then (if 0 < tablesTouched then lines1 else lines)
        else
          (let st = fill_run net lines
           in if 0 < rowsUpdated st \<or> 0 < tablesTouched then r_lines st else lines))"

section \<open>Notions used in the statements\<close>

definition num_le :: "jsnum \<Rightarrow> jsnum \<Rightarrow> bool" where
  \<comment> \<open>the order of the numbers other than NaN\<close>
  "num_le x y =
     (case (x, y) of
        (NInf, _) \<Rightarrow> True
      | (_, PInf) \<Rightarrow> True
      | (Fin a, Fin b) \<Rightarrow> a \<le> b
      | _ \<Rightarrow> False)"

definition key_precedes :: "jsnum option \<Rightarrow> jsnum option \<Rightarrow> bool" where
  \<comment> \<open>a row with the first key may stand before a row with the second: an unparseable key
     comes last, and numeric keys descend\<close>
  "key_precedes a b =
     (case b of
        None \<Rightarrow> True
      | Some y \<Rightarrow> (case a of None \<Rightarrow> False | Some x \<Rightarrow> num_le y x))"

definition star_rank :: "jsnum option \<Rightarrow> nat \<times> rat" where
  "star_rank k =
     (case k of
        None \<Rightarrow> (3, 0)
      | Some PInf \<Rightarrow> (0, 0)
      | Some (Fin a) \<Rightarrow> (1, - a)
      | Some NInf \<Rightarrow> (2, 0)
      | Some NaN \<Rightarrow> (4, 0))"

definition entry_rank :: "entry \<Rightarrow> (nat \<times> rat) \<times> nat" where
  \<comment> \<open>the sort key the comparator stands for, in the lexicographic order\<close>
  "entry_rank e = (star_rank (e_stars e), e_i e)"

definition stars_index :: "string \<Rightarrow> int" where
  \<comment> \<open>the index of the GitHub Stars column of a header line, as all scripts compute it\<close>
  "stars_index header = idxOf (map trim (split_pipe header)) ''GitHub Stars''"

definition github_index :: "string \<Rightarrow> int" where
  \<comment> \<open>the index of the Github column of a header line, as \<^verbatim>\<open>add-github-stars-column.js\<close>
     and \<^verbatim>\<open>fill-github-stars.js\<close> compute it\<close>
  "github_index header =
     (let hp = map trim (split_pipe header); g0 = idxOf hp ''Github''
      in if g0 = - 1 then idxOf hp ''GitHub'' else g0)"

definition star_key :: "string list \<Rightarrow> int \<Rightarrow> nat \<Rightarrow> jsnum option" where
  \<comment> \<open>the sort key of line r: the parsed cell of the stars column c\<close>
  "star_key lines c r = parseStars (cell_or (nth_opt (split_pipe (lines ! r)) c) [])"

definition cells :: "string \<Rightarrow> string list" where
  \<comment> \<open>the cells of a row, as every script reads them\<close>
  "cells line = split_pipe line"

definition is_run :: "string list \<Rightarrow> nat \<Rightarrow> nat \<Rightarrow> bool" where
  \<comment> \<open>the lines from s up to e (exclusive) are a maximal run of table lines\<close>
  "is_run lines s e \<longleftrightarrow>
     s < e \<and> e \<le> length lines
     \<and> (\<forall>j. s \<le> j \<and> j < e \<longrightarrow> isTableLine (lines ! j))
     \<and> (s = 0 \<or> \<not> isTableLine (lines ! (s - 1)))
     \<and> (e = length lines \<or> \<not> isTableLine (lines ! e))"

definition open_run :: "string list \<Rightarrow> nat \<Rightarrow> table \<Rightarrow> bool" where
  \<comment> \<open>the table holds the run of table lines that starts at its first row and reaches
     up to line k (exclusive)\<close>
  "open_run lines k t \<longleftrightarrow>
     (\<exists>s. rows t = [s..<k] \<and> s < k \<and> k \<le> length lines
        \<and> (\<forall>j. s \<le> j \<and> j < k \<longrightarrow> isTableLine (lines ! j))
        \<and> (s = 0 \<or> \<not> isTableLine (lines ! (s - 1))))"

definition closed_run :: "string list \<Rightarrow> table \<Rightarrow> bool" where
  "closed_run lines t \<longleftrightarrow> (\<exists>s e. rows t = [s..<e] \<and> is_run lines s e)"

definition scan_inv :: "string list \<Rightarrow> nat \<Rightarrow> bool \<Rightarrow> table list \<Rightarrow> bool" where
  \<comment> \<open>the invariant of the loop of \<open>findTables\<close> before line k\<close>
  "scan_inv lines k inT tables \<longleftrightarrow>
     (if inT
      then tables \<noteq> [] \<and> (\<forall>t \<in> set (butlast tables). closed_run lines t)
           \<and> open_run lines k (last tables)
      else (\<forall>t \<in> set tables. closed_run lines t)
           \<and> (k = 0 \<or> \<not> isTableLine (lines ! (k - 1))))"

definition add_emit :: "add_state \<Rightarrow> string \<Rightarrow> string" where
  \<comment> \<open>the line one round of \<^verbatim>\<open>add-github-stars-column.js\<close> pushes to \<^verbatim>\<open>out\<close>\<close>
  "add_emit st line = last (out (add_step st line))"

definition split_emit :: "split_state \<Rightarrow> string \<Rightarrow> string" where
  \<comment> \<open>the line one round of \<^verbatim>\<open>split-link-column.js\<close> pushes to \<^verbatim>\<open>updatedLines\<close>\<close>
  "split_emit st line = last (updatedLines (split_step st line))"

definition add_insert_index :: "string \<Rightarrow> int" where
  \<comment> \<open>where \<^verbatim>\<open>add-github-stars-column.js\<close> inserts the column, from the header line\<close>
  "add_insert_index header =
     (if github_index header \<noteq> - 1 then github_index header + 1
      else max 0 (int (length (split_pipe header)) - 1))"

definition add_sep_cell :: "string \<Rightarrow> string \<Rightarrow> string" where
  \<comment> \<open>the separator cell \<^verbatim>\<open>add-github-stars-column.js\<close> inserts, from the header line and
     the separator line\<close>
  "add_sep_cell header line =
     (let sepParts = split_pipe line;
          refIndex = (if github_index header \<noteq> - 1 then github_index header
                      else max 0 (int (length sepParts) - 2))
      in '' '' @ separatorCellFrom (Some (cell_or (nth_opt sepParts refIndex) '' --- '')) @ '' '')"

definition fill_sep_cell :: "string \<Rightarrow> string \<Rightarrow> string" where
  \<comment> \<open>the separator cell \<^verbatim>\<open>fill-github-stars.js\<close> inserts, from the header line and the
     separator line\<close>
  "fill_sep_cell header line =
     '' '' @ separatorCellFrom
              (Some (cell_or (nth_opt (split_pipe line) (github_index header)) '' --- '')) @ '' ''"

definition add_tracking :: "add_state \<Rightarrow> string \<Rightarrow> nat \<Rightarrow> bool" where
  \<comment> \<open>inside a table with the given header line, n lines of it read\<close>
  "add_tracking st header n \<longleftrightarrow>
     inTable st \<and> headerLineCount st = n
     \<and> githubColIndex st = github_index header
     \<and> modifyThisTable st = (stars_index header = - 1)
     \<and> (stars_index header = - 1 \<longrightarrow> insertIndex st = add_insert_index header)"

definition add_inv :: "add_state \<Rightarrow> string list \<Rightarrow> bool" where
  \<comment> \<open>after the lines ls: nothing modified means nothing changed\<close>
  "add_inv st ls \<longleftrightarrow>
     (modifyThisTable st \<longrightarrow> 0 < tablesModified st)
     \<and> (tablesModified st = 0 \<longrightarrow> out st = ls)"

definition split_inv :: "split_state \<Rightarrow> string list \<Rightarrow> bool" where
  "split_inv st ls \<longleftrightarrow>
     (tableHasLinkColumn st \<longrightarrow> 0 < changesCount st)
     \<and> (changesCount st = 0 \<longrightarrow> updatedLines st = ls)"

definition row_key :: "string list \<Rightarrow> table \<Rightarrow> nat \<Rightarrow> jsnum option" where
  \<comment> \<open>the sort key of data row number k of a table: the parsed cell of the table's stars
     column\<close>
  "row_key lines t k =
     star_key lines (stars_index (lines ! (rows t ! 0))) (drop 2 (rows t) ! k)"

definition sort_doc :: "string list" where
  \<comment> \<open>a document with one table, whose star keys are 150, null, 300, null, 150\<close>
  "sort_doc =
     [''| Name | GitHub Stars |'',
      ''| --- | --- |'',
      ''| a | 150 |'',
      ''| b | |'',
      ''| c | 300 |'',
      ''| d | n/a |'',
      ''| e | 150 |'']"

definition sort_doc_table :: table where
  "sort_doc_table = \<lparr>startIndex = 0, headerLine = 0, rows = [0, 1, 2, 3, 4, 5, 6]\<rparr>"

section \<open>Basic facts about strings\<close>

lemma split_on_not_Nil [simp]: "split_on c s \<noteq> []"
  by (induction s) (auto simp: Let_def)

lemma split_on_no_sep: "p \<in> set (split_on c s) \<Longrightarrow> c \<notin> set p"
proof (induction s arbitrary: p)
  case Nil
  then show ?case by simp
next
  case (Cons x xs)
  have ne: "split_on c xs \<noteq> []" by simp
  then obtain h t where ht: "split_on c xs = h # t" by (cases "split_on c xs") auto
  from Cons.IH[of h] ht have h: "c \<notin> set h" by simp
  from Cons.IH ht have t: "\<And>q. q \<in> set t \<Longrightarrow> c \<notin> set q" by simp
  from Cons.prems ht h t Cons.IH show ?case
    by (auto simp: Let_def split: if_splits)
qed

lemma join_split_on [simp]: "join_on c (split_on c s) = s"
proof (induction s)
  case Nil
  then show ?case by simp
next
  case (Cons x xs)
  obtain h t where ht: "split_on c xs = h # t" by (cases "split_on c xs") auto
  with Cons show ?case
    by (cases t) (auto simp: Let_def)
qed

lemma split_on_append_sep:
  "c \<notin> set p \<Longrightarrow> split_on c (p @ c # s) = p # split_on c s"
  by (induction p) (auto simp: Let_def)

lemma split_on_no_sep_id: "c \<notin> set p \<Longrightarrow> split_on c p = [p]"
  by (induction p) (auto simp: Let_def)

lemma split_join_on:
  "ps \<noteq> [] \<Longrightarrow> \<forall>p \<in> set ps. c \<notin> set p \<Longrightarrow> split_on c (join_on c ps) = ps"
proof (induction c ps rule: join_on.induct)
  case (1 c)
  then show ?case by simp
next
  case (2 c p)
  then show ?case by (simp add: split_on_no_sep_id)
next
  case (3 c p q ps)
  then show ?case by (simp add: split_on_append_sep)
qed

lemma length_splice_ins [simp]: "length (splice_ins i x xs) = Suc (length xs)"
  by (simp add: splice_ins_def Let_def)

lemma splice_ins_in_range:
  "0 \<le> i \<Longrightarrow> i \<le> int (length xs) \<Longrightarrow>
   splice_ins i x xs = take (nat i) xs @ x # drop (nat i) xs"
  by (simp add: splice_ins_def Let_def min_def)

lemma splice_ins_nth:
  "0 \<le> i \<Longrightarrow> i \<le> int (length xs) \<Longrightarrow> splice_ins i x xs ! nat i = x"
  by (simp add: splice_ins_in_range nth_append)

lemma splice_ins_take:
  "0 \<le> i \<Longrightarrow> i \<le> int (length xs) \<Longrightarrow> take (nat i) (splice_ins i x xs) = take (nat i) xs"
  by (simp add: splice_ins_in_range)

lemma splice_ins_drop:
  "0 \<le> i \<Longrightarrow> i \<le> int (length xs) \<Longrightarrow>
   drop (Suc (nat i)) (splice_ins i x xs) = drop (nat i) xs"
  by (simp add: splice_ins_in_range)

lemma set_splice_ins [simp]: "set (splice_ins i x xs) = insert x (set xs)"
proof -
  have "set (take k xs) \<union> set (drop k xs) = set xs" for k
    by (metis append_take_drop_id set_append)
  then show ?thesis
    by (auto simp: splice_ins_def Let_def)
qed

lemma split_join_splice:
  "c \<notin> set x \<Longrightarrow>
   split_on c (join_on c (splice_ins i x (split_on c s))) = splice_ins i x (split_on c s)"
proof (rule split_join_on)
  show "splice_ins i x (split_on c s) \<noteq> []"
    by (simp add: splice_ins_def Let_def)
  show "c \<notin> set x \<Longrightarrow> \<forall>p\<in>set (splice_ins i x (split_on c s)). c \<notin> set p"
    by (auto simp: split_on_no_sep)
qed

lemma is_space_colon [simp]: "\<not> is_space (CHR '':'')" "\<not> is_space (CHR ''-'')"
  by (simp_all add: is_space_def)

lemma trim_Nil [simp]: "trim [] = []"
  by (simp add: trim_def)

section \<open>Claim C7: the separator cell\<close>

lemma separatorCellFrom_cases:
  "separatorCellFrom cell \<in> {''---'', '':---'', ''---:'', '':---:''}"
  by (simp add: separatorCellFrom_def Let_def)

text \<open>
  Claim C7. The separator cell built from a reference cell is the three-dash core with a
  leading colon exactly when the trimmed reference starts with a colon, and a trailing
  colon exactly when the trimmed reference ends with a colon; the references
  \<^verbatim>\<open>:---:\<close>, \<^verbatim>\<open>---:\<close> and \<^verbatim>\<open>---\<close> (with or without blanks around them) give back
  themselves, and an absent or empty reference gives \<^verbatim>\<open>---\<close>.
\<close>

theorem separatorCellFrom_alignment:
  "(let t = trim (case cell of None \<Rightarrow> [] | Some c \<Rightarrow> c)
    in separatorCellFrom cell =
         (if startsWith t '':'' then '':'' else []) @ ''---'' @
         (if endsWith t '':'' then '':'' else [])
       \<and> (startsWith (separatorCellFrom cell) '':'' \<longleftrightarrow> startsWith t '':'')
       \<and> (endsWith (separatorCellFrom cell) '':'' \<longleftrightarrow> endsWith t '':''))
   \<and> (cell = None \<or> cell = Some [] \<longrightarrow> separatorCellFrom cell = ''---'')
   \<and> separatorCellFrom (Some '':---:'') = '':---:''
   \<and> separatorCellFrom (Some ''---:'') = ''---:''
   \<and> separatorCellFrom (Some ''---'') = ''---''
   \<and> separatorCellFrom (Some '' :---: '') = '':---:''
   \<and> separatorCellFrom (Some '' ---: '') = ''---:''
   \<and> separatorCellFrom (Some '' --- '') = ''---''"
proof -
  have ex: "separatorCellFrom (Some '':---:'') = '':---:''
         \<and> separatorCellFrom (Some ''---:'') = ''---:''
         \<and> separatorCellFrom (Some ''---'') = ''---''
         \<and> separatorCellFrom (Some '' :---: '') = '':---:''
         \<and> separatorCellFrom (Some '' ---: '') = ''---:''
         \<and> separatorCellFrom (Some '' --- '') = ''---''"
    by (simp add: separatorCellFrom_def Let_def startsWith_def endsWith_def trim_def is_space_def)
  have empty: "cell = None \<or> cell = Some [] \<longrightarrow> separatorCellFrom cell = ''---''"
    by (auto simp: separatorCellFrom_def Let_def startsWith_def endsWith_def)
  have gen: "(let t = trim (case cell of None \<Rightarrow> [] | Some c \<Rightarrow> c)
    in separatorCellFrom cell =
         (if startsWith t '':'' then '':'' else []) @ ''---'' @
         (if endsWith t '':'' then '':'' else [])
       \<and> (startsWith (separatorCellFrom cell) '':'' \<longleftrightarrow> startsWith t '':'')
       \<and> (endsWith (separatorCellFrom cell) '':'' \<longleftrightarrow> endsWith t '':''))"
    by (simp add: separatorCellFrom_def Let_def startsWith_def endsWith_def)
  from gen empty ex show ?thesis by blast
qed

theorem separatorCellFrom_alignment_witness:
  "separatorCellFrom None = ''---'' \<and> separatorCellFrom (Some '':--- '') = '':---''"
  using separatorCellFrom_alignment[of None] separatorCellFrom_alignment[of "Some '':--- ''"]
  by (simp add: startsWith_def endsWith_def trim_def is_space_def Let_def)

section \<open>Evaluating numbers and strings\<close>

lemma floor_rat_numeral_div [simp]:
  "\<lfloor>numeral a / numeral b :: rat\<rfloor> = numeral a div numeral b"
  by (metis floor_divide_of_int_eq of_int_numeral)

lemma ceiling_rat_numeral_div [simp]:
  "\<lceil>numeral a / numeral b :: rat\<rceil> = - (- numeral a div numeral b)"
  by (metis ceiling_divide_eq_div of_int_numeral)

lemma bitlen_numeral [simp]:
  "bitlen 0 = 0"
  "bitlen (Suc 0) = 1"
  "bitlen 1 = 1"
  "bitlen (numeral (Num.Bit0 k)) = Suc (bitlen (numeral k))"
  "bitlen (numeral (Num.Bit1 k)) = Suc (bitlen (numeral k))"
proof -
  show "bitlen 0 = 0" by (simp add: bitlen.simps[of 0])
  show s1: "bitlen (Suc 0) = 1" by (simp add: bitlen.simps[of "Suc 0"] bitlen.simps[of 0])
  show "bitlen 1 = 1" using s1 by simp
  show "bitlen (numeral (Num.Bit0 k)) = Suc (bitlen (numeral k))"
    by (subst bitlen.simps) (simp add: numeral_Bit0_div_2)
  show "bitlen (numeral (Num.Bit1 k)) = Suc (bitlen (numeral k))"
    by (subst bitlen.simps) (simp add: numeral_Bit1_div_2)
qed

lemma char_of_eq_iff [simp]:
  "char_of (n::nat) = c \<longleftrightarrow> n mod 256 = of_char c"
  "c = char_of (n::nat) \<longleftrightarrow> n mod 256 = of_char c"
  by (metis char_of_char of_char_of)+

lemmas str_eval = is_space_def trim_def lower_char_def toLowerCase_def startsWith_def
  endsWith_def isTableLine_def

lemmas num_eval = to_double_def binade_def pow2_def pow10_def round_half_even_def js_mul_def
  Math_round_def isFinite_def is_digit_def digit_of_def digits_val_def parse_exponent_def
  parse_unsigned_decimal_def parse_radix_def js_Number_def parseFloat_def is_k_number_def
  match_k_def parseStars_def Let_def

lemma is_digit_facts:
  assumes "is_digit c"
  shows "\<not> is_space c" and "lower_char c = c" and "c \<noteq> CHR '',''" and "c \<noteq> CHR ''.''"
    and "c \<noteq> CHR ''k''"
  using assms by (auto simp: is_digit_def is_space_def lower_char_def)

lemma trim_id:
  assumes "s \<noteq> []" and "\<not> is_space (hd s)" and "\<not> is_space (last s)"
  shows "trim s = s"
proof -
  have "dropWhile is_space s = s"
    using assms by (simp add: dropWhile_eq_self_iff)
  moreover have "dropWhile is_space (rev s) = rev s"
    using assms by (simp add: dropWhile_eq_self_iff hd_rev)
  ultimately show ?thesis
    by (simp add: trim_def)
qed

lemma digits_val_append:
  "digits_val b (xs @ ys) = foldl (\<lambda>acc c. b * acc + digit_of c) (digits_val b xs) ys"
  by (simp add: digits_val_def)

lemma foldl_zeros:
  "foldl (\<lambda>acc c. 10 * acc + digit_of c) a (replicate n (CHR ''0'')) = a * 10 ^ n"
  by (induction n arbitrary: a) (simp_all add: digit_of_def)

lemma digits_val_one_zeros:
  "digits_val 10 (CHR ''1'' # replicate n (CHR ''0'')) = 10 ^ n"
proof -
  have "digits_val 10 ''1'' = 1"
    by (simp add: digits_val_def digit_of_def)
  then have "digits_val 10 (''1'' @ replicate n (CHR ''0'')) = 10 ^ n"
    by (simp only: digits_val_append foldl_zeros)
  then show ?thesis by simp
qed

lemma parseStars_digits_k:
  assumes ne: "ds \<noteq> []" and dig: "list_all is_digit ds"
  shows "parseStars (ds @ ''k'') =
           (let val = to_double (of_int (int (digits_val 10 ds)))
            in Some (Math_round (js_mul val (Fin 1000))))"
proof -
  let ?s = "ds @ ''k''"
  from dig have ball: "Ball (set ds) is_digit"
    by (simp add: list_all_iff)
  then have all: "\<And>c. c \<in> set ds \<Longrightarrow> is_digit c"
    by simp
  from ne all have hd: "is_digit (hd ds)" and lst: "is_digit (last ds)"
    by simp_all
  have h1: "\<not> is_space (hd ?s)"
    using ne is_digit_facts(1)[OF hd] by simp
  have h2: "\<not> is_space (last ?s)"
    by (simp add: is_space_def)
  have trim: "trim ?s = ?s"
    by (rule trim_id) (use h1 h2 in simp_all)
  have flt: "filter (\<lambda>c. c \<noteq> CHR '','') ?s = ?s"
    using all by (auto simp: is_digit_facts filter_id_conv)
  have "map lower_char ds = ds"
    by (rule map_idI) (simp add: all is_digit_facts(2))
  moreover have "lower_char (CHR ''k'') = CHR ''k''"
    by (simp add: lower_char_def)
  ultimately have low: "toLowerCase ?s = ?s"
    by (simp add: toLowerCase_def)
  have tw: "takeWhile is_digit ds = ds" and dw: "dropWhile is_digit ds = []"
    using all by simp_all
  have "dropWhile is_space (rev ds) = rev ds"
    using ne is_digit_facts(1)[OF lst] by (simp add: dropWhile_eq_self_iff hd_rev)
  then have strip: "rev (dropWhile is_space (rev ds)) = ds"
    by simp
  have mk: "match_k ?s = Some ds"
    using ne ball by (simp add: match_k_def strip is_k_number_def tw)
  have pf: "parseFloat ds = to_double (of_int (int (digits_val 10 ds)))"
    using ne ball by (simp add: parseFloat_def parse_unsigned_decimal_def parse_exponent_def
        pow10_def tw)
  have nn: "to_double x \<noteq> NaN" for x
    by (simp add: to_double_def Let_def)
  show ?thesis
    unfolding parseStars_def Let_def
    by (simp only: trim flt low mk) (use ne in \<open>simp add: pf nn\<close>)
qed

section \<open>Claim C2: the star-value parser\<close>

lemma to_double_not_NaN [simp]: "to_double x \<noteq> NaN"
  by (simp add: to_double_def Let_def)

lemma parseStars_examples:
  "parseStars ''1,234'' = Some (Fin 1234)"
  "parseStars ''2.5k'' = Some (Fin 2500)"
  "parseStars ''3k'' = Some (Fin 3000)"
  "parseStars '''' = None"
  "parseStars ''abc'' = None"
  by (simp_all add: str_eval num_eval)

lemma parseStars_more_examples:
  "parseStars '' 150 '' = Some (Fin 150)"
  "parseStars '' 300 '' = Some (Fin 300)"
  "parseStars '' '' = None"
  "parseStars '' n/a '' = None"
  "parseStars ''1.5 K'' = Some (Fin 1500)"
  "parseStars '','' = Some (Fin 0)"
  by (simp_all add: str_eval num_eval)

lemma parseStars_not_NaN: "parseStars s \<noteq> Some NaN"
proof -
  have r: "v \<noteq> NaN \<Longrightarrow> Math_round (js_mul v (Fin 1000)) \<noteq> NaN" for v
    by (cases v) (simp_all add: Math_round_def js_mul_def split: jsnum.splits)
  have f: "isFinite n \<Longrightarrow> n \<noteq> NaN" for n
    by (cases n) (simp_all add: isFinite_def)
  show ?thesis
    using r f by (auto simp: parseStars_def Let_def)
qed

text \<open>
  Claim C2, at the input where it fails. The parser returns a value for every string (it is
  a total function), and the five examples of the claim hold (\<open>parseStars_examples\<close>). But
  the returned number is not always finite: on a cell of 310 digits followed by \<^verbatim>\<open>k\<close> the
  branch for the \<^verbatim>\<open>k\<close> suffix, which only tests for NaN, returns \<^verbatim>\<open>Infinity\<close>, where the
  other branch tests \<^verbatim>\<open>Number.isFinite\<close>.
\<close>

theorem parseStars_huge_k_is_infinite:
  "parseStars (''1'' @ replicate 309 (CHR ''0'') @ ''k'') = Some PInf
   \<and> \<not> isFinite PInf"
proof -
  let ?ds = "CHR ''1'' # replicate 309 (CHR ''0'')"
  have d: "list_all is_digit ?ds"
    by (simp add: is_digit_def list_all_iff)
  have v: "of_int (int (digits_val 10 ?ds)) = (10 ^ 309 :: rat)"
    by (simp only: digits_val_one_zeros) simp
  have t: "to_double (10 ^ 309) = PInf"
    by (simp add: to_double_def)
  have "parseStars (?ds @ ''k'') = Some PInf"
    by (subst parseStars_digits_k[OF _ d])
      (simp_all only: v t Let_def, simp_all add: js_mul_def Math_round_def)
  then show ?thesis by (simp add: isFinite_def)
qed

section \<open>The sort\<close>

lemma mset_insert_sorted [simp]: "mset (insert_sorted cmp x ys) = add_mset x (mset ys)"
  by (induction ys) simp_all

lemma mset_js_sort [simp]: "mset (js_sort cmp xs) = mset xs"
  by (induction xs) (simp_all add: js_sort_def)

lemma set_js_sort [simp]: "set (js_sort cmp xs) = set xs"
  by (metis mset_js_sort set_mset_mset)

lemma length_js_sort [simp]: "length (js_sort cmp xs) = length xs"
  by (metis mset_js_sort size_mset)

lemma star_rank_inj:
  "a \<noteq> Some NaN \<Longrightarrow> b \<noteq> Some NaN \<Longrightarrow> star_rank a = star_rank b \<Longrightarrow> a = b"
  by (auto simp: star_rank_def split: option.splits jsnum.splits)

lemma comes_after_rank:
  assumes "e_stars a \<noteq> Some NaN" and "e_stars b \<noteq> Some NaN"
  shows "comes_after compare_entries a b \<longleftrightarrow> entry_rank b < entry_rank a"
proof (cases "e_stars a")
  case None
  with assms show ?thesis
    by (cases "e_stars b")
      (auto simp: comes_after_def compare_entries_def entry_rank_def star_rank_def Let_def
        split: jsnum.splits)
next
  case (Some x)
  note a = this
  show ?thesis
  proof (cases "e_stars b")
    case None
    with a assms show ?thesis
      by (auto simp: comes_after_def compare_entries_def entry_rank_def star_rank_def Let_def
        split: jsnum.splits)
  next
    case (Some y)
    with a assms have nn: "x \<noteq> NaN" "y \<noteq> NaN" by auto
    show ?thesis
    proof (cases "x = y")
      case True
      with a Some nn show ?thesis
        by (auto simp: comes_after_def compare_entries_def entry_rank_def strict_neq_def Let_def)
    next
      case False
      with a Some nn show ?thesis
        by (cases x; cases y)
          (auto simp: comes_after_def compare_entries_def entry_rank_def star_rank_def
            strict_neq_def js_sub_def Let_def)
    qed
  qed
qed

lemma insert_sorted_insort:
  assumes "\<forall>e \<in> set (x # ys). e_stars e \<noteq> Some NaN"
  shows "insert_sorted compare_entries x ys = insort_key entry_rank x ys"
  using assms by (induction ys) (auto simp: comes_after_rank not_less)

lemma js_sort_sort_key:
  assumes "\<forall>e \<in> set xs. e_stars e \<noteq> Some NaN"
  shows "js_sort compare_entries xs = sort_key entry_rank xs"
  using assms
proof (induction xs)
  case Nil
  then show ?case by (simp add: js_sort_def)
next
  case (Cons x xs)
  then have ih: "js_sort compare_entries xs = sort_key entry_rank xs" by simp
  have "\<forall>e \<in> set (x # sort_key entry_rank xs). e_stars e \<noteq> Some NaN"
    using Cons.prems by simp
  from insert_sorted_insort[OF this] ih show ?case
    by (simp add: js_sort_def sort_key_def)
qed

lemma js_sort_unique:
  assumes nn: "\<forall>e \<in> set xs. e_stars e \<noteq> Some NaN"
      and dist: "distinct (map e_i xs)"
      and perm: "mset ys = mset xs"
      and ord: "sorted_wrt (\<lambda>a b. \<not> comes_after compare_entries a b) ys"
  shows "ys = js_sort compare_entries xs"
proof -
  let ?zs = "sort_key entry_rank xs"
  have inj: "inj_on entry_rank (set xs)"
  proof (rule inj_onI)
    fix a b assume ab: "a \<in> set xs" "b \<in> set xs" "entry_rank a = entry_rank b"
    then have "e_i a = e_i b" by (simp add: entry_rank_def)
    moreover from dist have "inj_on e_i (set xs)" by (simp add: distinct_map)
    ultimately show "a = b" using ab by (simp add: inj_on_def)
  qed
  have sets: "set ys = set xs" using perm by (rule mset_eq_setD)
  have dx: "distinct xs" using dist by (simp add: distinct_map)
  have d1: "distinct (map entry_rank xs)"
    using dx inj by (simp add: distinct_map)
  have "mset (map entry_rank ys) = mset (map entry_rank xs)"
    using perm by simp
  then have d2: "distinct (map entry_rank ys)"
    using d1 mset_eq_imp_distinct_iff by blast
  have "mset (map entry_rank ?zs) = mset (map entry_rank xs)"
    by simp
  then have d3: "distinct (map entry_rank ?zs)"
    using d1 mset_eq_imp_distinct_iff by blast
  have le: "entry_rank a \<le> entry_rank b"
    if "a \<in> set ys" "b \<in> set ys" "\<not> comes_after compare_entries a b" for a b
    using that nn sets by (simp add: comes_after_rank not_less)
  have "sorted_wrt (\<lambda>a b. entry_rank a \<le> entry_rank b) ys"
    by (rule sorted_wrt_mono_rel[OF _ ord]) (simp add: le)
  then have s1: "sorted (map entry_rank ys)"
    by (simp add: sorted_map)
  have s2: "sorted (map entry_rank ?zs)"
    by simp
  have "set (map entry_rank ys) = set (map entry_rank ?zs)"
    using sets by simp
  with s1 d2 s2 d3 have "map entry_rank ys = map entry_rank ?zs"
    by (rule sorted_distinct_set_unique)
  moreover have "inj_on entry_rank (set ys \<union> set ?zs)"
    using inj sets by simp
  ultimately have "ys = ?zs"
    by (simp add: inj_on_map_eq_map)
  then show ?thesis
    by (simp add: js_sort_sort_key[OF nn])
qed

lemma js_sort_sorted:
  assumes nn: "\<forall>e \<in> set xs. e_stars e \<noteq> Some NaN"
  shows "sorted_wrt (\<lambda>a b. entry_rank a \<le> entry_rank b) (js_sort compare_entries xs)"
proof -
  have "sorted (map entry_rank (sort_key entry_rank xs))" by simp
  then show ?thesis
    by (simp add: js_sort_sort_key[OF nn] sorted_map)
qed

lemma rank_le_precedes:
  assumes "e_stars a \<noteq> Some NaN" and "e_stars b \<noteq> Some NaN"
      and "entry_rank a \<le> entry_rank b"
  shows "key_precedes (e_stars a) (e_stars b)"
    and "e_stars a = e_stars b \<Longrightarrow> e_i a \<le> e_i b"
  using assms
  by (auto simp: entry_rank_def star_rank_def key_precedes_def num_le_def
      split: option.splits jsnum.splits)

section \<open>The tables of a document\<close>

lemma concat_rows_push_row:
  "tables \<noteq> [] \<Longrightarrow> concat (map rows (push_row tables k)) = concat (map rows tables) @ [k]"
  by (cases tables rule: rev_cases) (simp_all add: push_row_def)

lemma push_row_not_Nil: "tables \<noteq> [] \<Longrightarrow> push_row tables k \<noteq> []"
  by (simp add: push_row_def)

lemma table_lines_Cons:
  "filter (\<lambda>j. isTableLine ((l # rest) ! j)) [0..<Suc (length rest)] =
     (if isTableLine l then [0] else [])
     @ map Suc (filter (\<lambda>j. isTableLine (rest ! j)) [0..<length rest])"
proof -
  have "[0..<Suc (length rest)] = 0 # map Suc [0..<length rest]"
    by (simp add: upt_conv_Cons map_Suc_upt del: upt_Suc)
  then show ?thesis
    by (simp add: filter_map comp_def del: upt_Suc)
qed

lemma findTables_loop_rows:
  "(inT \<longrightarrow> tables \<noteq> []) \<Longrightarrow>
   concat (map rows (findTables_loop ls k inT tables)) =
     concat (map rows tables)
     @ map (\<lambda>j. j + k) (filter (\<lambda>j. isTableLine (ls ! j)) [0..<length ls])"
proof (induction ls arbitrary: k inT tables)
  case Nil
  then show ?case by simp
next
  case (Cons l rest)
  have shift: "map (\<lambda>j. j + Suc k) xs = map (\<lambda>j. j + k) (map Suc xs)" for xs
    by simp
  show ?case
  proof (cases "isTableLine l")
    case False
    then show ?thesis
      using Cons.IH[of False tables "Suc k"]
      by (simp only: table_lines_Cons findTables_loop.simps length_Cons) (simp add: comp_def)
  next
    case True
    show ?thesis
    proof (cases inT)
      case False
      with True show ?thesis
        using Cons.IH[of True "tables @ [\<lparr>startIndex = k, headerLine = k, rows = [k]\<rparr>]" "Suc k"]
        by (simp only: table_lines_Cons findTables_loop.simps length_Cons) (simp add: comp_def)
    next
      case inT: True
      with Cons.prems have ne: "tables \<noteq> []" by simp
      from True inT show ?thesis
        using Cons.IH[of True "push_row tables k" "Suc k"] push_row_not_Nil[OF ne]
          concat_rows_push_row[OF ne]
        by (simp only: table_lines_Cons findTables_loop.simps length_Cons) (simp add: comp_def)
    qed
  qed
qed

lemma findTables_rows:
  "concat (map rows (findTables lines)) =
     filter (\<lambda>j. isTableLine (lines ! j)) [0..<length lines]"
  using findTables_loop_rows[of False "[]" lines 0] by (simp add: findTables_def)

lemma findTables_distinct: "distinct (concat (map rows (findTables lines)))"
  by (simp add: findTables_rows)

lemma findTables_row_valid:
  assumes "t \<in> set (findTables lines)" and "r \<in> set (rows t)"
  shows "r < length lines" and "isTableLine (lines ! r)"
proof -
  from assms have "r \<in> set (concat (map rows (findTables lines)))" by auto
  then have "r \<in> set (filter (\<lambda>j. isTableLine (lines ! j)) [0..<length lines])"
    by (simp only: findTables_rows)
  then show "r < length lines" and "isTableLine (lines ! r)" by simp_all
qed

lemma findTables_covers:
  assumes "k < length lines" and "isTableLine (lines ! k)"
  shows "\<exists>t \<in> set (findTables lines). k \<in> set (rows t)"
proof -
  from assms have "k \<in> set (filter (\<lambda>j. isTableLine (lines ! j)) [0..<length lines])" by simp
  then have "k \<in> set (concat (map rows (findTables lines)))"
    by (simp only: findTables_rows)
  then show ?thesis by auto
qed

lemma findTables_rows_disjoint:
  assumes "findTables lines = pre @ t # post"
  shows "set (rows t) \<inter> (\<Union>u \<in> set pre \<union> set post. set (rows u)) = {}"
proof -
  have "distinct (concat (map rows (pre @ t # post)))"
    using findTables_distinct[of lines] assms by simp
  then show ?thesis by auto
qed

subsection \<open>Every table is a maximal run of table lines\<close>

lemma open_run_closed:
  "open_run lines (length lines) t \<Longrightarrow> closed_run lines t"
  by (auto simp: open_run_def closed_run_def is_run_def)

lemma open_run_close:
  assumes "open_run lines k t" and "k < length lines" and "\<not> isTableLine (lines ! k)"
  shows "closed_run lines t"
proof -
  from assms(1) obtain s where s: "rows t = [s..<k]" "s < k"
    "\<forall>j. s \<le> j \<and> j < k \<longrightarrow> isTableLine (lines ! j)"
    "s = 0 \<or> \<not> isTableLine (lines ! (s - 1))"
    by (auto simp: open_run_def)
  show ?thesis
    unfolding closed_run_def is_run_def
    using s assms(2,3) by (intro exI[of _ s] exI[of _ k]) auto
qed

lemma open_run_start:
  assumes "k < length lines" and "isTableLine (lines ! k)"
      and "k = 0 \<or> \<not> isTableLine (lines ! (k - 1))"
  shows "open_run lines (Suc k) \<lparr>startIndex = k, headerLine = k, rows = [k]\<rparr>"
  unfolding open_run_def
  using assms by (intro exI[of _ k]) (auto simp: less_Suc_eq)

lemma open_run_extend:
  assumes "open_run lines k t" and "k < length lines" and "isTableLine (lines ! k)"
  shows "open_run lines (Suc k) (t\<lparr>rows := rows t @ [k]\<rparr>)"
proof -
  from assms(1) obtain s where s: "rows t = [s..<k]" "s < k"
    "\<forall>j. s \<le> j \<and> j < k \<longrightarrow> isTableLine (lines ! j)"
    "s = 0 \<or> \<not> isTableLine (lines ! (s - 1))"
    by (auto simp: open_run_def)
  show ?thesis
    unfolding open_run_def
    using s assms(2,3) by (intro exI[of _ s]) (auto simp: less_Suc_eq)
qed

lemma findTables_loop_runs:
  assumes "drop k lines = ls" and "k \<le> length lines" and "scan_inv lines k inT tables"
  shows "\<forall>t \<in> set (findTables_loop ls k inT tables). closed_run lines t"
  using assms
proof (induction ls arbitrary: k inT tables)
  case Nil
  then have k: "k = length lines" by simp
  show ?case
  proof (cases inT)
    case True
    with Nil.prems(3) have ne: "tables \<noteq> []"
      and cl: "\<forall>t \<in> set (butlast tables). closed_run lines t"
      and op: "open_run lines k (last tables)"
      by (simp_all add: scan_inv_def)
    from ne have "set tables = set (butlast tables) \<union> {last tables}"
      by (metis append_butlast_last_id list.simps(15) set_append Un_insert_right
          sup_bot.right_neutral list.set(1))
    with cl open_run_closed[OF op[unfolded k]] show ?thesis by auto
  next
    case False
    with Nil.prems(3) show ?thesis by (simp add: scan_inv_def)
  qed
next
  case (Cons l rest)
  from Cons.prems(1,2) have kl: "k < length lines"
    by (metis drop_all leI list.distinct(1))
  with Cons.prems(1) have l: "l = lines ! k" and rest: "drop (Suc k) lines = rest"
    by (metis Cons_nth_drop_Suc list.inject)+
  from kl have k': "Suc k \<le> length lines" by simp
  show ?case
  proof (cases "isTableLine l")
    case False
    have "scan_inv lines (Suc k) False tables"
    proof (cases inT)
      case True
      with Cons.prems(3) have ne: "tables \<noteq> []"
        and cl: "\<forall>t \<in> set (butlast tables). closed_run lines t"
        and op: "open_run lines k (last tables)"
        by (simp_all add: scan_inv_def)
      from ne have "set tables = set (butlast tables) \<union> {last tables}"
        by (metis append_butlast_last_id list.simps(15) set_append Un_insert_right
            sup_bot.right_neutral list.set(1))
      with cl open_run_close[OF op kl] False l show ?thesis
        by (auto simp: scan_inv_def)
    next
      case inT: False
      with Cons.prems(3) False l show ?thesis by (simp add: scan_inv_def)
    qed
    from Cons.IH[OF rest k' this] False show ?thesis by simp
  next
    case True
    show ?thesis
    proof (cases inT)
      case False
      with Cons.prems(3) have cl: "\<forall>t \<in> set tables. closed_run lines t"
        and st: "k = 0 \<or> \<not> isTableLine (lines ! (k - 1))"
        by (simp_all add: scan_inv_def)
      from True l have "isTableLine (lines ! k)" by simp
      from open_run_start[OF kl this st] cl
      have "scan_inv lines (Suc k) True (tables @ [\<lparr>startIndex = k, headerLine = k, rows = [k]\<rparr>])"
        by (simp add: scan_inv_def)
      from Cons.IH[OF rest k' this] True False show ?thesis by simp
    next
      case inT: True
      with Cons.prems(3) have ne: "tables \<noteq> []"
        and cl: "\<forall>t \<in> set (butlast tables). closed_run lines t"
        and op: "open_run lines k (last tables)"
        by (simp_all add: scan_inv_def)
      from True l have "isTableLine (lines ! k)" by simp
      from open_run_extend[OF op kl this] ne cl
      have "scan_inv lines (Suc k) True (push_row tables k)"
        by (simp add: scan_inv_def push_row_def)
      from Cons.IH[OF rest k' this] True inT show ?thesis by simp
    qed
  qed
qed

lemma findTables_runs:
  assumes "t \<in> set (findTables lines)"
  shows "\<exists>s e. rows t = [s..<e] \<and> is_run lines s e"
proof -
  have "scan_inv lines 0 False []" by (simp add: scan_inv_def)
  from findTables_loop_runs[OF _ _ this, of lines] assms show ?thesis
    by (simp add: findTables_def closed_run_def)
qed

lemma findTables_rows_nth:
  assumes "t \<in> set (findTables lines)" and "j < length (rows t)"
  shows "rows t ! j = hd (rows t) + j" and "rows t ! j < length lines"
    and "isTableLine (lines ! (rows t ! j))"
proof -
  from findTables_runs[OF assms(1)] obtain s e where se: "rows t = [s..<e]" "is_run lines s e"
    by blast
  with assms(2) show "rows t ! j = hd (rows t) + j"
    by (simp add: is_run_def)
  from assms show "rows t ! j < length lines" and "isTableLine (lines ! (rows t ! j))"
    using findTables_row_valid[OF assms(1), of "rows t ! j"] by simp_all
qed

lemma findTables_rows_distinct:
  assumes "t \<in> set (findTables lines)"
  shows "distinct (rows t)"
  using findTables_runs[OF assms] by auto

lemma findTables_same_flags:
  assumes "map isTableLine ls = map isTableLine ls'"
  shows "findTables_loop ls k inT tables = findTables_loop ls' k inT tables"
  using assms
proof (induction ls arbitrary: ls' k inT tables)
  case Nil
  then show ?case by simp
next
  case (Cons l rest)
  then obtain l' rest' where ls': "ls' = l' # rest'" and l: "isTableLine l = isTableLine l'"
    and r: "map isTableLine rest = map isTableLine rest'"
    by (cases ls') auto
  from Cons.IH[OF r] l show ?case
    by (simp add: ls')
qed

section \<open>The line-by-line scripts\<close>

subsection \<open>add-github-stars-column.js\<close>

lemmas add_defs = add_step_def add_header_def add_separator_def add_data_def Let_def

lemma out_add_step: "out (add_step st l) = out st @ [add_emit st l]"
  by (simp add: add_emit_def add_defs)

lemma out_foldl_add_step:
  "out (foldl add_step st ls) =
     out st @ map (\<lambda>k. add_emit (foldl add_step st (take k ls)) (ls ! k)) [0..<length ls]"
proof (induction ls rule: rev_induct)
  case Nil
  then show ?case by simp
next
  case (snoc l ls)
  have "map (\<lambda>k. add_emit (foldl add_step st (take k (ls @ [l]))) ((ls @ [l]) ! k)) [0..<length ls]
      = map (\<lambda>k. add_emit (foldl add_step st (take k ls)) (ls ! k)) [0..<length ls]"
    by (rule map_cong) (simp_all add: nth_append)
  with snoc show ?case
    by (simp add: out_add_step)
qed

lemma add_emit_other: "\<not> isTableLine l \<Longrightarrow> add_emit st l = l"
  by (simp add: add_emit_def add_defs)

lemma add_step_leaves_table: "\<not> isTableLine l \<Longrightarrow> \<not> inTable (add_step st l)"
  by (simp add: add_defs)

lemma add_step_inv: "add_inv st ls \<Longrightarrow> add_inv (add_step st l) (ls @ [l])"
  by (auto simp: add_inv_def add_defs)

lemma add_inv_foldl: "add_inv (foldl add_step add_init ls) ls"
proof (induction ls rule: rev_induct)
  case Nil
  then show ?case by (simp add: add_inv_def add_init_def)
next
  case (snoc l ls)
  then show ?case by (simp add: add_step_inv)
qed

lemma add_column_main_out: "add_column_main lines = out (foldl add_step add_init lines)"
  using add_inv_foldl[of lines] by (auto simp: add_column_main_def add_inv_def Let_def)

lemma length_add_column_main [simp]: "length (add_column_main lines) = length lines"
  by (simp add: add_column_main_out out_foldl_add_step add_init_def)

lemma add_column_main_nth:
  "k < length lines \<Longrightarrow>
   add_column_main lines ! k = add_emit (foldl add_step add_init (take k lines)) (lines ! k)"
  by (simp add: add_column_main_out out_foldl_add_step add_init_def)

lemma add_header_tracking:
  "\<not> inTable st \<Longrightarrow> isTableLine l \<Longrightarrow> add_tracking (add_step st l) l 1"
  by (simp add: add_tracking_def add_defs stars_index_def github_index_def add_insert_index_def)

lemma add_next_tracking:
  "add_tracking st h n \<Longrightarrow> isTableLine l \<Longrightarrow> add_tracking (add_step st l) h (Suc n)"
  by (auto simp: add_tracking_def add_defs)

lemma add_emit_header:
  "\<not> inTable st \<Longrightarrow> isTableLine l \<Longrightarrow>
   add_emit st l =
     (if stars_index l \<noteq> - 1 then l
      else join_pipe (splice_ins (add_insert_index l) '' GitHub Stars '' (split_pipe l)))"
  by (simp add: add_emit_def add_defs stars_index_def github_index_def add_insert_index_def)

lemma add_emit_separator:
  "add_tracking st h 1 \<Longrightarrow> isTableLine l \<Longrightarrow>
   add_emit st l =
     (if stars_index h \<noteq> - 1 then l
      else join_pipe (splice_ins (add_insert_index h) (add_sep_cell h l) (split_pipe l)))"
  by (auto simp: add_emit_def add_defs add_tracking_def add_sep_cell_def)

lemma add_emit_data:
  "add_tracking st h n \<Longrightarrow> 2 \<le> n \<Longrightarrow> isTableLine l \<Longrightarrow>
   add_emit st l =
     (if stars_index h \<noteq> - 1 then l
      else join_pipe (splice_ins (add_insert_index h) '' '' (split_pipe l)))"
  by (auto simp: add_emit_def add_defs add_tracking_def)

lemma add_state_before_run:
  assumes "is_run lines s e"
  shows "\<not> inTable (foldl add_step add_init (take s lines))"
proof (cases s)
  case 0
  then show ?thesis by (simp add: add_init_def)
next
  case (Suc s')
  with assms have s': "s' < length lines" and nt: "\<not> isTableLine (lines ! s')"
    by (auto simp: is_run_def)
  from s' have "take (Suc s') lines = take s' lines @ [lines ! s']"
    by (rule take_Suc_conv_app_nth)
  with nt Suc show ?thesis
    by (simp add: add_step_leaves_table)
qed

lemma add_state_in_run:
  assumes run: "is_run lines s e" and n: "n < e - s"
  shows "add_tracking (foldl add_step add_init (take (Suc (s + n)) lines)) (lines ! s) (Suc n)"
  using n
proof (induction n)
  case 0
  from run have s: "s < length lines" and t: "isTableLine (lines ! s)"
    by (auto simp: is_run_def)
  from s have "take (Suc s) lines = take s lines @ [lines ! s]"
    by (rule take_Suc_conv_app_nth)
  with add_header_tracking[OF add_state_before_run[OF run] t] show ?case
    by simp
next
  case (Suc n)
  then have n: "n < e - s" by simp
  from run Suc.prems have k: "Suc (s + n) < length lines" and t: "isTableLine (lines ! Suc (s + n))"
    by (auto simp: is_run_def)
  from k have "take (Suc (Suc (s + n))) lines = take (Suc (s + n)) lines @ [lines ! Suc (s + n)]"
    by (rule take_Suc_conv_app_nth)
  with add_next_tracking[OF Suc.IH[OF n] t] show ?case
    by simp
qed

lemma add_column_main_row:
  assumes run: "is_run lines s e" and n: "n < e - s"
  shows "add_column_main lines ! (s + n) =
     (if stars_index (lines ! s) \<noteq> - 1 then lines ! (s + n)
      else join_pipe (splice_ins (add_insert_index (lines ! s))
             (if n = 0 then '' GitHub Stars ''
              else if n = 1 then add_sep_cell (lines ! s) (lines ! (s + n))
              else '' '')
             (split_pipe (lines ! (s + n)))))"
proof -
  from run n have k: "s + n < length lines" and t: "isTableLine (lines ! (s + n))"
    by (auto simp: is_run_def)
  note nth = add_column_main_nth[OF k]
  show ?thesis
  proof (cases n)
    case 0
    with nth add_emit_header[OF add_state_before_run[OF run]] t show ?thesis
      by simp
  next
    case (Suc m)
    with n have m: "m < e - s" by simp
    note tr = add_state_in_run[OF run m]
    show ?thesis
    proof (cases m)
      case 0
      with Suc nth add_emit_separator[OF _ t, of _ "lines ! s"] tr show ?thesis
        by simp
    next
      case (Suc m')
      with \<open>n = Suc m\<close> nth add_emit_data[OF tr _ t] show ?thesis
        by simp
    qed
  qed
qed

subsection \<open>split-link-column.js\<close>

lemmas split_defs = split_step_def split_header_def split_separator_def split_data_def Let_def

lemma updatedLines_split_step:
  "updatedLines (split_step st l) = updatedLines st @ [split_emit st l]"
  by (simp add: split_emit_def split_defs)

lemma updatedLines_foldl_split_step:
  "updatedLines (foldl split_step st ls) =
     updatedLines st
     @ map (\<lambda>k. split_emit (foldl split_step st (take k ls)) (ls ! k)) [0..<length ls]"
proof (induction ls rule: rev_induct)
  case Nil
  then show ?case by simp
next
  case (snoc l ls)
  have "map (\<lambda>k. split_emit (foldl split_step st (take k (ls @ [l]))) ((ls @ [l]) ! k))
          [0..<length ls]
      = map (\<lambda>k. split_emit (foldl split_step st (take k ls)) (ls ! k)) [0..<length ls]"
    by (rule map_cong) (simp_all add: nth_append)
  with snoc show ?case
    by (simp add: updatedLines_split_step)
qed

lemma split_emit_other: "\<not> isTableLine l \<Longrightarrow> split_emit st l = l"
  by (simp add: split_emit_def split_defs)

lemma split_step_inv: "split_inv st ls \<Longrightarrow> split_inv (split_step st l) (ls @ [l])"
  by (auto simp: split_inv_def split_defs)

lemma split_inv_foldl: "split_inv (foldl split_step split_init ls) ls"
proof (induction ls rule: rev_induct)
  case Nil
  then show ?case by (simp add: split_inv_def split_init_def)
next
  case (snoc l ls)
  then show ?case by (simp add: split_step_inv)
qed

lemma split_link_main_out:
  "split_link_main lines = updatedLines (foldl split_step split_init lines)"
  using split_inv_foldl[of lines] by (auto simp: split_link_main_def split_inv_def Let_def)

lemma length_split_link_main [simp]: "length (split_link_main lines) = length lines"
  by (simp add: split_link_main_out updatedLines_foldl_split_step split_init_def)

lemma split_link_main_nth:
  "k < length lines \<Longrightarrow>
   split_link_main lines ! k = split_emit (foldl split_step split_init (take k lines)) (lines ! k)"
  by (simp add: split_link_main_out updatedLines_foldl_split_step split_init_def)

section \<open>The scripts that edit the lines in place\<close>

subsection \<open>A loop over the tables touches each table once\<close>

lemma foldl_tables_length:
  assumes len: "\<And>s t. length (fst (f s t)) = length (fst s)"
  shows "length (fst (foldl f s ts)) = length (fst s)"
  by (induction ts arbitrary: s) (simp_all add: len)

lemma foldl_tables_frame:
  assumes frame: "\<And>s t r. r \<notin> F t \<Longrightarrow> fst (f s t) ! r = fst s ! r"
      and out: "\<forall>t \<in> set ts. r \<notin> F t"
  shows "fst (foldl f s ts) ! r = fst s ! r"
  using out by (induction ts arbitrary: s) (simp_all add: frame)

lemma foldl_tables_at:
  assumes len: "\<And>s t. length (fst (f s t)) = length (fst s)"
      and frame: "\<And>s t r. r \<notin> F t \<Longrightarrow> fst (f s t) ! r = fst s ! r"
      and split: "ts = pre @ t # post"
      and disj: "\<forall>u \<in> set pre \<union> set post. F u \<inter> R = {}"
  shows "\<exists>s1. s1 = foldl f s pre \<and> length (fst s1) = length (fst s)
           \<and> (\<forall>r \<in> R. fst s1 ! r = fst s ! r)
           \<and> (\<forall>r \<in> R. fst (foldl f s ts) ! r = fst (f s1 t) ! r)"
proof -
  let ?s1 = "foldl f s pre"
  have l1: "length (fst ?s1) = length (fst s)"
    using len by (rule foldl_tables_length)
  have a1: "\<forall>r \<in> R. fst ?s1 ! r = fst s ! r"
  proof
    fix r assume "r \<in> R"
    with disj have "\<forall>u \<in> set pre. r \<notin> F u" by auto
    with frame show "fst ?s1 ! r = fst s ! r"
      by (rule foldl_tables_frame)
  qed
  have a2: "\<forall>r \<in> R. fst (foldl f s ts) ! r = fst (f ?s1 t) ! r"
  proof
    fix r assume "r \<in> R"
    with disj have "\<forall>u \<in> set post. r \<notin> F u" by auto
    with frame have "fst (foldl f (f ?s1 t) post) ! r = fst (f ?s1 t) ! r"
      by (rule foldl_tables_frame)
    then show "fst (foldl f s ts) ! r = fst (f ?s1 t) ! r"
      by (simp add: split)
  qed
  from l1 a1 a2 show ?thesis by blast
qed

lemma foldl_update_length [simp]:
  "length (foldl (\<lambda>ls j. ls[g j := v ls j]) ls js) = length ls"
  by (induction js arbitrary: ls) simp_all

lemma foldl_update_other:
  "r \<notin> g ` set js \<Longrightarrow> foldl (\<lambda>ls j. ls[g j := v ls j]) ls js ! r = ls ! r"
  by (induction js arbitrary: ls) simp_all

lemma foldl_update_at:
  assumes "inj_on g {m..<n}" and "j \<in> {m..<n}" and "g j < length ls"
  shows "foldl (\<lambda>ls k. ls[g k := v k]) ls [m..<n] ! g j = v j"
  using assms
proof (induction n)
  case 0
  then show ?case by simp
next
  case (Suc n)
  show ?case
  proof (cases "j = n")
    case True
    with Suc.prems show ?thesis by simp
  next
    case False
    with Suc.prems have j: "j \<in> {m..<n}" and mn: "m \<le> n" by auto
    from Suc.prems(1) have inj: "inj_on g {m..<n}"
      by (rule inj_on_subset) auto
    from inj_onD[OF Suc.prems(1), of j n] j False mn have "g j \<noteq> g n"
      by auto
    with Suc.IH[OF inj j Suc.prems(3)] mn show ?thesis by simp
  qed
qed

subsection \<open>sort-tables-by-stars.js, one table\<close>

lemma length_star_entries [simp]: "length (star_entries ls c d) = length d"
  by (simp add: star_entries_def)

lemma star_entries_nth:
  "k < length d \<Longrightarrow>
   star_entries ls c d ! k =
     \<lparr>e_ri = d ! k, e_i = k, e_stars = star_key ls c (d ! k), e_line = ls ! (d ! k)\<rparr>"
  by (simp add: star_entries_def star_key_def Let_def)

lemma star_entries_maps:
  "map e_ri (star_entries ls c d) = d"
  "map e_i (star_entries ls c d) = [0..<length d]"
  "map e_line (star_entries ls c d) = map ((!) ls) d"
  "map e_stars (star_entries ls c d) = map (star_key ls c) d"
  by (rule nth_equalityI; simp add: star_entries_nth)+

lemma star_entries_not_NaN: "\<forall>e \<in> set (star_entries ls c d). e_stars e \<noteq> Some NaN"
proof
  fix e assume "e \<in> set (star_entries ls c d)"
  then obtain k where "k < length d" "e = star_entries ls c d ! k"
    by (metis in_set_conv_nth length_star_entries)
  then show "e_stars e \<noteq> Some NaN"
    by (simp add: star_entries_nth star_key_def parseStars_not_NaN)
qed

lemma star_entries_elem:
  assumes "e \<in> set (star_entries ls c d)"
  shows "e_i e < length d" and "e_line e = ls ! (d ! e_i e)"
    and "e_stars e = star_key ls c (d ! e_i e)" and "e_ri e = d ! e_i e"
proof -
  from assms obtain k where k: "k < length d" "e = star_entries ls c d ! k"
    by (metis in_set_conv_nth length_star_entries)
  then show "e_i e < length d" and "e_line e = ls ! (d ! e_i e)"
    and "e_stars e = star_key ls c (d ! e_i e)" and "e_ri e = d ! e_i e"
    by (simp_all add: star_entries_nth)
qed

lemma sort_table_fst:
  "fst (sort_table (ls, a, b) t) =
     (if length (rows t) < 3 \<or> stars_index (ls ! (rows t ! 0)) = - 1 then ls
      else
        (let d = drop 2 (rows t);
             E = star_entries ls (stars_index (ls ! (rows t ! 0))) d;
             S = js_sort compare_entries E
         in if map e_ri S = map e_ri E then ls
            else foldl (\<lambda>l j. l[d ! j := e_line (S ! j)]) ls [0..<length d]))"
  by (simp add: sort_table_def stars_index_def Let_def)

lemma sort_table_length [simp]: "length (fst (sort_table s t)) = length (fst s)"
  by (cases s) (simp add: sort_table_fst Let_def)

lemma sort_table_frame:
  assumes "r \<notin> set (drop 2 (rows t))"
  shows "fst (sort_table s t) ! r = fst s ! r"
proof -
  obtain ls a b where s: "s = (ls, a, b)" by (cases s)
  have notin: "r \<notin> (\<lambda>j. drop 2 (rows t) ! j) ` set [0..<length (drop 2 (rows t))]"
    using assms by (auto simp del: length_drop drop_eq_Nil nth_drop)
  let ?S = "js_sort compare_entries
              (star_entries ls (stars_index (ls ! (rows t ! 0))) (drop 2 (rows t)))"
  from foldl_update_other[where v="\<lambda>_ j. e_line (?S ! j)", OF notin] show ?thesis
    by (simp add: s sort_table_fst Let_def del: length_drop nth_drop)
qed

lemma sort_table_skip:
  "length (rows t) < 3 \<or> stars_index (fst s ! (rows t ! 0)) = - 1 \<Longrightarrow> fst (sort_table s t) = fst s"
  by (cases s) (simp add: sort_table_fst)

lemma sort_table_rows:
  assumes dist: "distinct (rows t)" and valid: "\<forall>r \<in> set (rows t). r < length ls"
      and len: "3 \<le> length (rows t)" and c: "stars_index (ls ! (rows t ! 0)) \<noteq> - 1"
  shows "map ((!) (fst (sort_table (ls, a, b) t))) (drop 2 (rows t)) =
           map e_line (js_sort compare_entries
             (star_entries ls (stars_index (ls ! (rows t ! 0))) (drop 2 (rows t))))"
proof -
  let ?d = "drop 2 (rows t)"
  let ?E = "star_entries ls (stars_index (ls ! (rows t ! 0))) ?d"
  let ?S = "js_sort compare_entries ?E"
  have dd: "distinct ?d" using dist by simp
  have dv: "\<forall>r \<in> set ?d. r < length ls" using valid by (auto dest: in_set_dropD)
  show ?thesis
  proof (cases "map e_ri ?S = map e_ri ?E")
    case True
    have "distinct (map e_ri ?E)"
      using dd by (simp add: star_entries_maps)
    then have "inj_on e_ri (set ?S \<union> set ?E)"
      by (simp add: distinct_map)
    with True have "?S = ?E" by (simp add: inj_on_map_eq_map)
    with True len c show ?thesis
      by (simp add: sort_table_fst Let_def star_entries_maps del: length_drop nth_drop)
  next
    case False
    let ?ls' = "foldl (\<lambda>l j. l[?d ! j := e_line (?S ! j)]) ls [0..<length ?d]"
    have inj: "inj_on (\<lambda>j. ?d ! j) {0..<length ?d}"
      using dd by (auto simp: inj_on_def nth_eq_iff_index_eq simp del: length_drop nth_drop)
    have "map ((!) ?ls') ?d = map e_line ?S"
    proof (rule nth_equalityI)
      show "length (map ((!) ?ls') ?d) = length (map e_line ?S)" by simp
      fix j assume "j < length (map ((!) ?ls') ?d)"
      then have j: "j < length ?d" by simp
      then have "?d ! j < length ls" using dv by (simp del: length_drop nth_drop)
      from foldl_update_at[where g="\<lambda>j. ?d ! j" and v="\<lambda>j. e_line (?S ! j)", OF inj _ this] j
      have "?ls' ! (?d ! j) = e_line (?S ! j)" by (simp del: length_drop nth_drop)
      with j show "map ((!) ?ls') ?d ! j = map e_line ?S ! j"
        by (simp del: length_drop nth_drop)
    qed
    with False len c show ?thesis
      by (simp add: sort_table_fst Let_def del: length_drop nth_drop)
  qed
qed

subsection \<open>sort-tables-by-stars.js, the whole document\<close>

lemma findTables_row_unique:
  assumes t: "t \<in> set (findTables lines)" and u: "u \<in> set (findTables lines)"
      and r: "r \<in> set (rows t)" "r \<in> set (rows u)"
  shows "t = u"
proof (rule ccontr)
  assume ne: "t \<noteq> u"
  from t obtain pre post where sp: "findTables lines = pre @ t # post"
    by (auto dest: split_list)
  with u ne have "u \<in> set pre \<union> set post" by auto
  with findTables_rows_disjoint[OF sp] r show False by auto
qed

lemma findTables_split_disjoint:
  assumes "findTables lines = pre @ t # post" and "\<And>u. F u \<subseteq> set (rows u)"
  shows "\<forall>u \<in> set pre \<union> set post. F u \<inter> set (rows t) = {}"
proof
  fix u assume "u \<in> set pre \<union> set post"
  with findTables_rows_disjoint[OF assms(1)] have "set (rows u) \<inter> set (rows t) = {}"
    by auto
  with assms(2)[of u] show "F u \<inter> set (rows t) = {}" by auto
qed

lemma sort_table_changed:
  "sort_table (ls, a, b) t = (ls', a', b') \<Longrightarrow> b \<le> b' \<and> (b' = b \<longrightarrow> ls' = ls)"
  by (auto simp: sort_table_def Let_def split: if_splits)

lemma foldl_sort_table_changed:
  "foldl sort_table (ls, a, b) ts = (ls', a', b') \<Longrightarrow> b \<le> b' \<and> (b' = b \<longrightarrow> ls' = ls)"
proof (induction ts arbitrary: ls a b)
  case Nil
  then show ?case by simp
next
  case (Cons t ts)
  obtain ls1 a1 b1 where s1: "sort_table (ls, a, b) t = (ls1, a1, b1)"
    by (cases "sort_table (ls, a, b) t")
  from Cons.prems have "foldl sort_table (ls1, a1, b1) ts = (ls', a', b')"
    by (simp add: s1)
  from Cons.IH[OF this] sort_table_changed[OF s1] show ?case by auto
qed

lemma sort_main_fst:
  "sort_main lines = fst (foldl sort_table (lines, 0, 0) (findTables lines))"
proof -
  obtain ls' a' b' where f: "foldl sort_table (lines, 0, 0) (findTables lines) = (ls', a', b')"
    by (cases "foldl sort_table (lines, 0, 0) (findTables lines)")
  from foldl_sort_table_changed[OF f] f show ?thesis
    by (auto simp: sort_main_def)
qed

lemma length_sort_main [simp]: "length (sort_main lines) = length lines"
  by (simp add: sort_main_fst foldl_tables_length)

lemma sort_main_outside:
  assumes "\<forall>t \<in> set (findTables lines). r \<notin> set (drop 2 (rows t))"
  shows "sort_main lines ! r = lines ! r"
  unfolding sort_main_fst
  using foldl_tables_frame[where f=sort_table and F="\<lambda>t. set (drop 2 (rows t))"
      and s="(lines, 0, 0)", OF sort_table_frame assms]
  by simp

lemma sort_main_at_table:
  assumes t: "t \<in> set (findTables lines)"
  shows "\<exists>s1. length (fst s1) = length lines
           \<and> (\<forall>r \<in> set (rows t). fst s1 ! r = lines ! r)
           \<and> (\<forall>r \<in> set (rows t). sort_main lines ! r = fst (sort_table s1 t) ! r)"
proof -
  from t obtain pre post where sp: "findTables lines = pre @ t # post"
    by (auto dest: split_list)
  have disj: "\<forall>u \<in> set pre \<union> set post. set (drop 2 (rows u)) \<inter> set (rows t) = {}"
    by (rule findTables_split_disjoint[OF sp]) (auto dest: in_set_dropD)
  have ln: "\<And>s t. length (fst (sort_table s t)) = length (fst s)" by simp
  have fr: "\<And>s t r. r \<notin> set (drop 2 (rows t)) \<Longrightarrow> fst (sort_table s t) ! r = fst s ! r"
    by (rule sort_table_frame)
  from foldl_tables_at[where f=sort_table and F="\<lambda>t. set (drop 2 (rows t))"
      and s="(lines, 0, 0)" and R="set (rows t)", OF ln fr sp disj]
  obtain s1 where "length (fst s1) = length lines"
    and "\<forall>r \<in> set (rows t). fst s1 ! r = lines ! r"
    and "\<forall>r \<in> set (rows t).
           fst (foldl sort_table (lines, 0, 0) (findTables lines)) ! r = fst (sort_table s1 t) ! r"
    by (simp only: fst_conv) blast
  then show ?thesis
    unfolding sort_main_fst by (intro exI[of _ s1]) simp
qed

lemma sort_main_skip:
  assumes t: "t \<in> set (findTables lines)"
      and skip: "length (rows t) < 3 \<or> stars_index (lines ! (rows t ! 0)) = - 1"
      and r: "r \<in> set (rows t)"
  shows "sort_main lines ! r = lines ! r"
proof (cases "length (rows t) < 3")
  case True
  have "\<forall>u \<in> set (findTables lines). r \<notin> set (drop 2 (rows u))"
  proof
    fix u assume u: "u \<in> set (findTables lines)"
    show "r \<notin> set (drop 2 (rows u))"
    proof
      assume ru: "r \<in> set (drop 2 (rows u))"
      then have "r \<in> set (rows u)" by (rule in_set_dropD)
      from findTables_row_unique[OF t u r this] ru True show False
        by simp
    qed
  qed
  then show ?thesis by (rule sort_main_outside)
next
  case False
  with skip have c: "stars_index (lines ! (rows t ! 0)) = - 1" by simp
  from False have "rows t ! 0 \<in> set (rows t)" by (cases "rows t") auto
  with sort_main_at_table[OF t] c r show ?thesis
    by (auto simp: sort_table_skip)
qed

lemma sort_main_table:
  assumes t: "t \<in> set (findTables lines)" and len: "3 \<le> length (rows t)"
      and c: "stars_index (lines ! (rows t ! 0)) \<noteq> - 1"
  shows "map ((!) (sort_main lines)) (drop 2 (rows t)) =
           map e_line (js_sort compare_entries
             (star_entries lines (stars_index (lines ! (rows t ! 0))) (drop 2 (rows t))))"
proof -
  let ?d = "drop 2 (rows t)"
  let ?c = "stars_index (lines ! (rows t ! 0))"
  from sort_main_at_table[OF t] obtain s1 where
    l1: "length (fst s1) = length lines" and
    a1: "\<forall>r \<in> set (rows t). fst s1 ! r = lines ! r" and
    a2: "\<forall>r \<in> set (rows t). sort_main lines ! r = fst (sort_table s1 t) ! r"
    by blast
  obtain ls a b where s1: "s1 = (ls, a, b)" by (cases s1)
  from len have h: "rows t ! 0 \<in> set (rows t)" by (cases "rows t") auto
  with a1 have hd: "ls ! (rows t ! 0) = lines ! (rows t ! 0)" by (simp add: s1)
  have sub: "set ?d \<subseteq> set (rows t)" by (auto dest: in_set_dropD)
  have ent: "star_entries ls ?c ?d = star_entries lines ?c ?d"
  proof (rule nth_equalityI)
    show "length (star_entries ls ?c ?d) = length (star_entries lines ?c ?d)" by simp
    fix k assume "k < length (star_entries ls ?c ?d)"
    then have k: "k < length ?d" by simp
    then have "?d ! k \<in> set (rows t)" using sub by (meson nth_mem subsetD)
    with a1 have "ls ! (?d ! k) = lines ! (?d ! k)" by (simp add: s1)
    with k show "star_entries ls ?c ?d ! k = star_entries lines ?c ?d ! k"
      by (simp add: star_entries_nth star_key_def del: length_drop nth_drop)
  qed
  have valid: "\<forall>r \<in> set (rows t). r < length ls"
    using findTables_row_valid(1)[OF t] l1 by (simp add: s1)
  from sort_table_rows[OF findTables_rows_distinct[OF t] valid len, of a b] c hd ent
  have "map ((!) (fst (sort_table (ls, a, b) t))) ?d =
          map e_line (js_sort compare_entries (star_entries lines ?c ?d))"
    by simp
  moreover have "map ((!) (sort_main lines)) ?d = map ((!) (fst (sort_table (ls, a, b) t))) ?d"
    by (rule map_cong) (use a2 sub s1 in auto)
  ultimately show ?thesis by simp
qed

lemma sort_main_table_line:
  assumes r: "r < length lines"
  shows "isTableLine (sort_main lines ! r) = isTableLine (lines ! r)"
proof (cases "\<exists>t \<in> set (findTables lines). r \<in> set (drop 2 (rows t))")
  case False
  then show ?thesis by (simp add: sort_main_outside)
next
  case True
  then obtain t where t: "t \<in> set (findTables lines)" and rd: "r \<in> set (drop 2 (rows t))"
    by blast
  then have rt: "r \<in> set (rows t)" by (auto dest: in_set_dropD)
  show ?thesis
  proof (cases "length (rows t) < 3 \<or> stars_index (lines ! (rows t ! 0)) = - 1")
    case True
    from sort_main_skip[OF t True rt] show ?thesis by simp
  next
    case False
    let ?d = "drop 2 (rows t)"
    let ?E = "star_entries lines (stars_index (lines ! (rows t ! 0))) ?d"
    from False have len: "3 \<le> length (rows t)"
      and c: "stars_index (lines ! (rows t ! 0)) \<noteq> - 1"
      by simp_all
    have eq: "map ((!) (sort_main lines)) ?d = map e_line (js_sort compare_entries ?E)"
      by (rule sort_main_table[OF t len c])
    from rd have "sort_main lines ! r \<in> set (map ((!) (sort_main lines)) ?d)"
      by (simp del: length_drop nth_drop)
    then have "sort_main lines ! r \<in> set (map e_line (js_sort compare_entries ?E))"
      by (simp only: eq)
    then have "sort_main lines ! r \<in> e_line ` set ?E"
      by simp
    then obtain e where e: "e \<in> set ?E" "sort_main lines ! r = e_line e"
      by blast
    from star_entries_elem(1,2)[OF e(1)] have k: "e_i e < length ?d"
      and el: "e_line e = lines ! (?d ! e_i e)"
      by simp_all
    from k have "?d ! e_i e \<in> set ?d" by (rule nth_mem)
    then have "?d ! e_i e \<in> set (rows t)" by (rule in_set_dropD)
    from findTables_row_valid(2)[OF t this] findTables_row_valid(2)[OF t rt] e(2) el
    show ?thesis by simp
  qed
qed

lemma findTables_sort_main: "findTables (sort_main lines) = findTables lines"
proof -
  have "map isTableLine (sort_main lines) = map isTableLine lines"
    by (rule nth_equalityI) (simp_all add: sort_main_table_line)
  then show ?thesis
    unfolding findTables_def by (rule findTables_same_flags)
qed

section \<open>Claims C3 and C10: the row sorter\<close>

lemma js_sort_example:
  assumes st: "map e_stars E = [Some (Fin 150), None, Some (Fin 300), None, Some (Fin 150)]"
      and ix: "map e_i E = [0, 1, 2, 3, 4]"
  shows "map e_i (js_sort compare_entries E) = [2, 0, 4, 1, 3]"
proof -
  from st obtain e0 e1 e2 e3 e4 where E: "E = [e0, e1, e2, e3, e4]"
    by (auto simp: map_eq_Cons_conv)
  from st ix show ?thesis
    unfolding E
    by (simp add: js_sort_def comes_after_def compare_entries_def strict_neq_def js_sub_def)
qed

lemma sort_main_head:
  assumes t: "t \<in> set (findTables lines)" and j: "j < 2" "j < length (rows t)"
  shows "sort_main lines ! (rows t ! j) = lines ! (rows t ! j)"
proof (rule sort_main_outside, rule ballI, rule notI)
  fix u assume u: "u \<in> set (findTables lines)" and ru: "rows t ! j \<in> set (drop 2 (rows u))"
  from j have rt: "rows t ! j \<in> set (rows t)" by simp
  from ru have "rows t ! j \<in> set (rows u)" by (rule in_set_dropD)
  from findTables_row_unique[OF t u rt this] ru have "rows t ! j \<in> set (drop 2 (rows t))"
    by simp
  then obtain k where k: "k < length (drop 2 (rows t))" "drop 2 (rows t) ! k = rows t ! j"
    by (auto simp: in_set_conv_nth simp del: length_drop nth_drop)
  then have "rows t ! (2 + k) = rows t ! j" and "2 + k < length (rows t)"
    by simp_all
  with findTables_rows_distinct[OF t] j show False
    by (simp add: nth_eq_iff_index_eq)
qed

lemma row_keys_entries:
  "map (row_key lines t) [0..<length (drop 2 (rows t))] =
     map e_stars (star_entries lines (stars_index (lines ! (rows t ! 0))) (drop 2 (rows t)))"
  by (rule nth_equalityI) (simp_all add: row_key_def star_entries_nth del: length_drop nth_drop)

text \<open>
  Claim C3. In every table with at least one data row and a GitHub Stars column, the data
  rows after the sort are the data rows before it in an order p (a permutation of the row
  numbers) in which a row stands before another only if its key precedes the other's:
  numeric keys descend and every unparseable key comes after every numeric one. Rows with
  the same key, numeric or unparseable, keep their original order. With the keys
  150, null, 300, null, 150 the order is row 2, row 0, row 4, row 1, row 3.
\<close>

theorem sort_main_order:
  assumes t: "t \<in> set (findTables lines)" and len: "3 \<le> length (rows t)"
      and c: "stars_index (lines ! (rows t ! 0)) \<noteq> - 1"
  shows "\<exists>p. mset p = mset [0..<length (drop 2 (rows t))]
           \<and> map ((!) (sort_main lines)) (drop 2 (rows t)) =
               map (\<lambda>k. lines ! (drop 2 (rows t) ! k)) p
           \<and> sorted_wrt (\<lambda>j k. key_precedes (row_key lines t j) (row_key lines t k)
                               \<and> (row_key lines t j = row_key lines t k \<longrightarrow> j < k)) p
           \<and> (map (row_key lines t) [0..<length (drop 2 (rows t))] =
                 [Some (Fin 150), None, Some (Fin 300), None, Some (Fin 150)]
               \<longrightarrow> p = [2, 0, 4, 1, 3])"
proof -
  let ?d = "drop 2 (rows t)"
  let ?c = "stars_index (lines ! (rows t ! 0))"
  let ?E = "star_entries lines ?c ?d"
  let ?S = "js_sort compare_entries ?E"
  let ?p = "map e_i ?S"
  have elem: "e_line e = lines ! (?d ! e_i e)" "e_stars e = row_key lines t (e_i e)"
      "e_stars e \<noteq> Some NaN"
    if "e \<in> set ?S" for e
  proof -
    from that have e: "e \<in> set ?E" by simp
    from star_entries_not_NaN e show "e_stars e \<noteq> Some NaN" by blast
    from star_entries_elem(2)[OF e] show "e_line e = lines ! (?d ! e_i e)" .
    from star_entries_elem(3)[OF e] show "e_stars e = row_key lines t (e_i e)"
      by (simp only: row_key_def)
  qed
  have "mset ?p = image_mset e_i (mset ?E)"
    by simp
  also have "\<dots> = mset (map e_i ?E)"
    by simp
  finally have p1: "mset ?p = mset [0..<length ?d]"
    by (simp only: star_entries_maps)
  have "map e_line ?S = map (\<lambda>k. lines ! (?d ! k)) ?p"
    by (simp add: comp_def elem(1) del: length_drop nth_drop set_js_sort)
  with sort_main_table[OF t len c]
  have p2: "map ((!) (sort_main lines)) ?d = map (\<lambda>k. lines ! (?d ! k)) ?p"
    by simp
  have dist: "distinct ?p"
  proof -
    have "distinct (map e_i ?E)" by (simp add: star_entries_maps)
    moreover have "mset ?p = mset (map e_i ?E)" by simp
    ultimately show ?thesis
      using mset_eq_imp_distinct_iff by blast
  qed
  have srt: "sorted_wrt (\<lambda>a b. entry_rank a \<le> entry_rank b) ?S"
    by (rule js_sort_sorted[OF star_entries_not_NaN])
  have p3: "sorted_wrt (\<lambda>j k. key_precedes (row_key lines t j) (row_key lines t k)
                               \<and> (row_key lines t j = row_key lines t k \<longrightarrow> j < k)) ?p"
    unfolding sorted_wrt_iff_nth_less
  proof (intro allI impI)
    fix i j assume ij: "i < j" and j: "j < length ?p"
    then have i: "i < length ?S" and j': "j < length ?S" by simp_all
    let ?a = "?S ! i" and ?b = "?S ! j"
    from i have a: "?a \<in> set ?S" by (rule nth_mem)
    from j' have b: "?b \<in> set ?S" by (rule nth_mem)
    from srt ij j' have le: "entry_rank ?a \<le> entry_rank ?b"
      by (simp add: sorted_wrt_iff_nth_less)
    from dist ij i j' have ne: "e_i ?a \<noteq> e_i ?b"
      using nth_eq_iff_index_eq[of ?p i j] by simp
    note na = elem(3)[OF a] and ka = elem(2)[OF a]
    note nb = elem(3)[OF b] and kb = elem(2)[OF b]
    from rank_le_precedes(1)[OF na nb le] have kp: "key_precedes (e_stars ?a) (e_stars ?b)" .
    from rank_le_precedes(2)[OF na nb le] ne
    have lt: "e_stars ?a = e_stars ?b \<longrightarrow> e_i ?a < e_i ?b"
      by (simp add: le_neq_implies_less)
    from i have pi: "?p ! i = e_i ?a" by simp
    from j' have pj: "?p ! j = e_i ?b" by simp
    from kp lt
    show "key_precedes (row_key lines t (?p ! i)) (row_key lines t (?p ! j))
        \<and> (row_key lines t (?p ! i) = row_key lines t (?p ! j) \<longrightarrow> ?p ! i < ?p ! j)"
      by (simp only: pi pj ka[symmetric] kb[symmetric])
  qed
  have p4: "map (row_key lines t) [0..<length ?d] =
                 [Some (Fin 150), None, Some (Fin 300), None, Some (Fin 150)]
               \<longrightarrow> ?p = [2, 0, 4, 1, 3]"
  proof
    assume k: "map (row_key lines t) [0..<length ?d] =
                 [Some (Fin 150), None, Some (Fin 300), None, Some (Fin 150)]"
    then have st: "map e_stars ?E = [Some (Fin 150), None, Some (Fin 300), None, Some (Fin 150)]"
      by (simp only: row_keys_entries)
    then have "length (map e_stars ?E) = 5" by simp
    then have n: "length ?d = 5" by (simp del: length_drop)
    have "[0..<5] = [0, 1, 2, 3, 4]" by (simp add: upt_rec)
    with n have ix: "map e_i ?E = [0, 1, 2, 3, 4]"
      by (simp only: star_entries_maps)
    from js_sort_example[OF st ix] show "?p = [2, 0, 4, 1, 3]" .
  qed
  show ?thesis
    by (intro exI[of _ ?p] conjI p1 p2 p3 p4)
qed

lemma sort_doc_tables: "findTables sort_doc = [sort_doc_table]"
  by (simp add: sort_doc_def sort_doc_table_def findTables_def push_row_def str_eval)

lemma sort_doc_header_index: "stars_index ''| Name | GitHub Stars |'' = 2"
  by (simp add: stars_index_def idxOf_def str_eval)

lemma sort_doc_stars_index: "stars_index (sort_doc ! 0) = 2"
  by (simp add: sort_doc_def sort_doc_header_index)

lemma sort_doc_keys:
  "map (row_key sort_doc sort_doc_table) [0..<5] =
     [Some (Fin 150), None, Some (Fin 300), None, Some (Fin 150)]"
proof -
  have "[0..<5] = [0, 1, 2, 3, 4]" by (simp add: upt_rec)
  then show ?thesis
    by (simp add: row_key_def star_key_def sort_doc_header_index
        sort_doc_def sort_doc_table_def nth_opt_def cell_or_def parseStars_more_examples)
qed

theorem sort_main_order_witness:
  "map ((!) (sort_main sort_doc)) [2, 3, 4, 5, 6] =
     [''| c | 300 |'', ''| a | 150 |'', ''| e | 150 |'', ''| b | |'', ''| d | n/a |'']"
proof -
  have t: "sort_doc_table \<in> set (findTables sort_doc)"
    by (simp add: sort_doc_tables)
  have len: "3 \<le> length (rows sort_doc_table)"
    by (simp add: sort_doc_table_def)
  have c: "stars_index (sort_doc ! (rows sort_doc_table ! 0)) \<noteq> - 1"
    by (simp add: sort_doc_table_def sort_doc_stars_index)
  have d: "drop 2 (rows sort_doc_table) = [2, 3, 4, 5, 6]"
    by (simp add: sort_doc_table_def)
  from sort_main_order[OF t len c] obtain p where
    p: "map ((!) (sort_main sort_doc)) (drop 2 (rows sort_doc_table)) =
          map (\<lambda>k. sort_doc ! (drop 2 (rows sort_doc_table) ! k)) p"
    and ex: "map (row_key sort_doc sort_doc_table) [0..<length (drop 2 (rows sort_doc_table))] =
               [Some (Fin 150), None, Some (Fin 300), None, Some (Fin 150)]
             \<longrightarrow> p = [2, 0, 4, 1, 3]"
    by blast
  have "length (drop 2 (rows sort_doc_table)) = 5"
    by (simp add: d)
  with ex have "map (row_key sort_doc sort_doc_table) [0..<5] =
               [Some (Fin 150), None, Some (Fin 300), None, Some (Fin 150)]
             \<longrightarrow> p = [2, 0, 4, 1, 3]"
    by (simp only:)
  from this sort_doc_keys have "p = [2, 0, 4, 1, 3]"
    by (rule mp)
  with p show ?thesis
    by (simp add: d) (simp add: sort_doc_def)
qed

text \<open>
  Claim C10. For every table, the lines at the positions of its data rows after the sort are
  a permutation of the lines there before; the header line and the separator line are
  unchanged; the document keeps its length, and the scanner finds the same tables with the
  same row positions in the sorted document.
\<close>

theorem sort_main_permutation:
  assumes t: "t \<in> set (findTables lines)"
  shows "mset (map ((!) (sort_main lines)) (drop 2 (rows t))) =
           mset (map ((!) lines) (drop 2 (rows t)))
       \<and> (\<forall>j. j < 2 \<and> j < length (rows t) \<longrightarrow>
             sort_main lines ! (rows t ! j) = lines ! (rows t ! j))
       \<and> length (sort_main lines) = length lines
       \<and> findTables (sort_main lines) = findTables lines"
proof -
  let ?d = "drop 2 (rows t)"
  have m: "mset (map ((!) (sort_main lines)) ?d) = mset (map ((!) lines) ?d)"
  proof (cases "length (rows t) < 3 \<or> stars_index (lines ! (rows t ! 0)) = - 1")
    case True
    have "map ((!) (sort_main lines)) ?d = map ((!) lines) ?d"
    proof (rule map_cong[OF refl])
      fix x assume "x \<in> set ?d"
      then have "x \<in> set (rows t)" by (rule in_set_dropD)
      then show "sort_main lines ! x = lines ! x" by (rule sort_main_skip[OF t True])
    qed
    then show ?thesis by (simp only:)
  next
    case False
    then have len: "3 \<le> length (rows t)" and c: "stars_index (lines ! (rows t ! 0)) \<noteq> - 1"
      by simp_all
    let ?E = "star_entries lines (stars_index (lines ! (rows t ! 0))) ?d"
    have "mset (map e_line (js_sort compare_entries ?E)) = mset (map e_line ?E)"
      by simp
    then show ?thesis
      by (simp only: sort_main_table[OF t len c] star_entries_maps)
  qed
  from m sort_main_head[OF t] show ?thesis
    by (simp add: findTables_sort_main)
qed

theorem sort_main_permutation_witness:
  "mset (map ((!) (sort_main sort_doc)) [2, 3, 4, 5, 6]) =
     mset [''| a | 150 |'', ''| b | |'', ''| c | 300 |'', ''| d | n/a |'', ''| e | 150 |'']
   \<and> sort_main sort_doc ! 0 = ''| Name | GitHub Stars |''
   \<and> sort_main sort_doc ! 1 = ''| --- | --- |''
   \<and> length (sort_main sort_doc) = 7
   \<and> findTables (sort_main sort_doc) = [sort_doc_table]"
proof -
  have t: "sort_doc_table \<in> set (findTables sort_doc)"
    by (simp add: sort_doc_tables)
  note th = sort_main_permutation[OF t]
  have d: "drop 2 (rows sort_doc_table) = [2, 3, 4, 5, 6]"
    by (simp add: sort_doc_table_def)
  from th have "mset (map ((!) (sort_main sort_doc)) (drop 2 (rows sort_doc_table))) =
      mset (map ((!) sort_doc) (drop 2 (rows sort_doc_table)))"
    by blast
  then have a: "mset (map ((!) (sort_main sort_doc)) [2, 3, 4, 5, 6]) =
     mset [''| a | 150 |'', ''| b | |'', ''| c | 300 |'', ''| d | n/a |'', ''| e | 150 |'']"
    unfolding d by (simp add: sort_doc_def)
  from th have b: "\<forall>j. j < 2 \<and> j < length (rows sort_doc_table) \<longrightarrow>
      sort_main sort_doc ! (rows sort_doc_table ! j) = sort_doc ! (rows sort_doc_table ! j)"
    by blast
  from b[rule_format, of 0] have b0: "sort_main sort_doc ! 0 = ''| Name | GitHub Stars |''"
    by (simp add: sort_doc_table_def) (simp add: sort_doc_def)
  from b[rule_format, of 1] have b1: "sort_main sort_doc ! 1 = ''| --- | --- |''"
    by (simp add: sort_doc_table_def) (simp add: sort_doc_def)
  from th have c: "length (sort_main sort_doc) = 7"
    by (simp add: sort_doc_def)
  from th have e: "findTables (sort_main sort_doc) = [sort_doc_table]"
    by (simp add: sort_doc_tables)
  from a b0 b1 c e show ?thesis by blast
qed


end
